theory Spec2Isabelle
  imports Main
begin

section \<open>Wait-time generators\<close>

text \<open>
  A Python generator is modelled by its suspended state and a function for one call of
  \<open>next\<close>: the function returns the yielded value and the state the generator is
  left in. The numbers are those of any linearly ordered type with the arithmetic the
  generator uses (Python's unbounded integers are the instance \<open>int\<close>).

  \<open>gen_state nxt g k\<close> is the state after \<open>k\<close> calls of \<open>next\<close> on a generator created
  in state \<open>g\<close>, and \<open>gen_nth nxt g k\<close> the value of call number \<open>k\<close> (counted from 0).
\<close>

fun gen_state :: "('g \<Rightarrow> 'n \<times> 'g) \<Rightarrow> 'g \<Rightarrow> nat \<Rightarrow> 'g" where
  "gen_state nxt g 0 = g"
| "gen_state nxt g (Suc k) = snd (nxt (gen_state nxt g k))"

definition gen_nth :: "('g \<Rightarrow> 'n \<times> 'g) \<Rightarrow> 'g \<Rightarrow> nat \<Rightarrow> 'n" where
  "gen_nth nxt g k = fst (nxt (gen_state nxt g k))"

text \<open>
  \<open>expo(base, max_value)\<close>: the state is the exponent \<open>n\<close>, initially 0. One pass of the
  loop body computes \<open>a = base ** n\<close>; below the cap (or with no cap) it yields \<open>a\<close> and
  increments \<open>n\<close>, otherwise it yields \<open>max_value\<close> and leaves \<open>n\<close> as it is.
\<close>

definition expo_init :: nat where
  "expo_init = 0"

definition expo :: "'a::{power,ord} \<Rightarrow> 'a option \<Rightarrow> nat \<Rightarrow> 'a \<times> nat" where
  "expo base max_value n =
     (let a = base ^ n in
      case max_value of
        None \<Rightarrow> (a, n + 1)
      | Some m \<Rightarrow> if a < m then (a, n + 1) else (m, n))"

text \<open>
  \<open>fibo(max_value)\<close>: the state is the pair \<open>(a, b)\<close>, initially \<open>(1, 1)\<close>. Below the cap
  it yields \<open>a\<close> and performs \<open>a, b = b, a + b\<close>; otherwise it yields \<open>max_value\<close> and
  leaves the pair as it is.
\<close>

definition fibo_init :: "'a::one \<times> 'a" where
  "fibo_init = (1, 1)"

definition fibo :: "'a::{plus,ord} option \<Rightarrow> 'a \<times> 'a \<Rightarrow> 'a \<times> ('a \<times> 'a)" where
  "fibo max_value s =
     (case s of (a, b) \<Rightarrow>
        (case max_value of
           None \<Rightarrow> (a, (b, a + b))
         | Some m \<Rightarrow> if a < m then (a, (b, a + b)) else (m, (a, b))))"

text \<open>\<open>constant(interval)\<close> has no state and yields \<open>interval\<close> on every call.\<close>

definition constant_gen :: "'a \<Rightarrow> unit \<Rightarrow> 'a \<times> unit" where
  "constant_gen interval u = (interval, ())"

text \<open>
  The Fibonacci sequence itself, \<open>1, 1, 2, 3, 5, \<dots>\<close>, as the reference against which the
  capped generator is compared.
\<close>

fun fib_term :: "nat \<Rightarrow> 'a::{one,plus}" where
  "fib_term 0 = 1"
| "fib_term (Suc 0) = 1"
| "fib_term (Suc (Suc n)) = fib_term n + fib_term (Suc n)"


section \<open>Exceptions, handlers and events\<close>

text \<open>
  An exception carries the names of its class and of the classes it inherits from, and a
  message. The clause \<open>except exception\<close> catches it when one of the configured class
  names is among them (\<open>exception\<close> is a class or a tuple of classes).
\<close>

datatype exc = Exc (exc_mro: "string list") (exc_msg: string)

definition exc_matches :: "string list \<Rightarrow> exc \<Rightarrow> bool" where
  "exc_matches exception e = list_ex (\<lambda>c. List.member (exc_mro e) c) exception"

definition TypeError :: "string \<Rightarrow> exc" where
  "TypeError msg = Exc [''TypeError'', ''Exception'', ''BaseException''] msg"

definition AttributeError :: "string \<Rightarrow> exc" where
  "AttributeError msg = Exc [''AttributeError'', ''Exception'', ''BaseException''] msg"

datatype 'v outcome = Returned 'v | Raised exc

text \<open>
  The invocation tuple \<open>invoc = target, args, kwargs\<close> that \<open>retry\<close> builds once per
  wrapped call and passes to every handler. A Python value is given by its \<open>str()\<close>
  and, when it is a tuple, by its items; the target is given by its \<open>__name__\<close>, if it
  has one (a \<open>functools.partial\<close> object, for instance, has none).
\<close>

datatype pyval = PyVal (py_str: string) (py_tuple: "pyval list option")

datatype invocation =
  Invocation (iv_name: "string option") (iv_args: "pyval list") (iv_kwargs: "(string \<times> pyval) list")

text \<open>
  \<open>"%s" % a\<close>: a value that is not a tuple is formatted with its \<open>str()\<close>; a tuple is
  taken as the tuple of the arguments of the format, so it must have exactly one item,
  and any other tuple raises \<open>TypeError\<close>.
\<close>

definition format_s :: "pyval \<Rightarrow> exc + string" where
  "format_s a =
     (case py_tuple a of
        None \<Rightarrow> Inr (py_str a)
      | Some [] \<Rightarrow> Inl (TypeError ''not enough arguments for format string'')
      | Some [x] \<Rightarrow> Inr (py_str x)
      | Some (x # y # zs) \<Rightarrow>
          Inl (TypeError ''not all arguments converted during string formatting''))"

text \<open>
  The generator expression \<open>"%s" % a for a in args\<close> consumed by \<open>join\<close>: the items are
  formatted in order and the first failure propagates.
\<close>

fun format_args :: "pyval list \<Rightarrow> exc + string list" where
  "format_args [] = Inr []"
| "format_args (a # as) =
     (case format_s a of
        Inl e \<Rightarrow> Inl e
      | Inr x \<Rightarrow> (case format_args as of Inl e \<Rightarrow> Inl e | Inr xs \<Rightarrow> Inr (x # xs)))"

fun join :: "string \<Rightarrow> string list \<Rightarrow> string" where
  "join sep [] = []"
| "join sep [x] = x"
| "join sep (x # y # zs) = x @ sep @ join sep (y # zs)"

text \<open>
  \<open>_invoc_repr(invoc)\<close>: the positional arguments are formatted first, then the keyword
  arguments (an item \<open>(key, value)\<close> of \<open>kwargs.items()\<close> is a pair, which \<open>"%s=%s" % i\<close>
  always accepts), and \<open>f.__name__\<close> is read last; it raises \<open>AttributeError\<close> when the
  target has no \<open>__name__\<close>.
\<close>

definition invoc_repr :: "invocation \<Rightarrow> exc + string" where
  "invoc_repr iv =
     (case format_args (iv_args iv) of
        Inl e \<Rightarrow> Inl e
      | Inr strs \<Rightarrow>
          (let args_out = join '', '' strs;
               args_out1 = (if iv_args iv \<noteq> [] \<and> iv_kwargs iv \<noteq> []
                            then args_out @ '', '' else args_out);
               args_out2 = (if iv_kwargs iv \<noteq> []
                            then args_out1 @
                                 join '', '' (map (\<lambda>(k, v). k @ ''='' @ py_str v) (iv_kwargs iv))
                            else args_out1)
           in case iv_name iv of
                None \<Rightarrow> Inl (AttributeError ''object has no attribute __name__'')
              | Some nm \<Rightarrow> Inr (nm @ ''('' @ args_out2 @ '')'')))"

text \<open>
  A handler is a callable: applied to the list of positional arguments it is called with,
  it returns normally (\<open>None\<close>) or raises. Every call of a handler is recorded as an
  event with the loop it was called from, the handler's name and the arguments passed;
  every \<open>time.sleep(seconds)\<close> is recorded with its duration.
\<close>

datatype harg = Invoc invocation | Tries nat

datatype hkind = Success | Backoff | Giveup

datatype 'n event = HandlerCall hkind string "harg list" | Sleep 'n

record handler =
  h_name :: string
  h_body :: "harg list \<Rightarrow> exc option"

text \<open>
  The default handlers \<open>_log_backoff(invoc, tries)\<close> and \<open>_log_giveup(invoc, tries)\<close>
  take exactly two positional arguments. Both build their message from
  \<open>_invoc_repr(invoc)\<close> and from \<open>tries\<close>, add the exception of \<open>sys.exc_info()\<close> if
  there is one, and pass the message to the logger; they raise what \<open>_invoc_repr\<close>
  raises. The logger is outside the program and the message is not recorded.
\<close>

definition log_body :: "harg list \<Rightarrow> exc option" where
  "log_body args =
     (case args of
        [Invoc iv, t] \<Rightarrow> (case invoc_repr iv of Inl e \<Rightarrow> Some e | Inr msg \<Rightarrow> None)
      | [Tries n, t] \<Rightarrow> Some (TypeError ''cannot unpack non-iterable int object'')
      | _ \<Rightarrow> Some (TypeError ''wrong number of arguments''))"

definition log_backoff :: handler where
  "log_backoff = \<lparr>h_name = ''_log_backoff'', h_body = log_body\<rparr>"

definition log_giveup :: handler where
  "log_giveup = \<lparr>h_name = ''_log_giveup'', h_body = log_body\<rparr>"

text \<open>
  The value of an \<open>on_success\<close>, \<open>on_backoff\<close> or \<open>on_giveup\<close> option: \<open>None\<close>, an object
  with an \<open>__iter__\<close> attribute (its elements, in order), or any other object, taken as
  one callable.
\<close>

datatype hdlr_arg = HNone | HCallable handler | HIterable "handler list"

definition handlers :: "hdlr_arg \<Rightarrow> handler option \<Rightarrow> handler list" where
  "handlers hdlr dflt =
     (let defaults = (case dflt of Some d \<Rightarrow> [d] | None \<Rightarrow> []) in
      case hdlr of
        HNone \<Rightarrow> defaults
      | HIterable hs \<Rightarrow> defaults @ hs
      | HCallable h \<Rightarrow> defaults @ [h])"

text \<open>
  \<open>for hdlr in hdlrs: hdlr(invoc, tries)\<close>: the handlers are called in order; the first
  one that raises ends the loop and its exception propagates.
\<close>

fun call_hdlrs :: "hkind \<Rightarrow> handler list \<Rightarrow> harg list \<Rightarrow> 'n event list \<times> exc option" where
  "call_hdlrs k [] args = ([], None)"
| "call_hdlrs k (h # hs) args =
     (case h_body h args of
        Some e \<Rightarrow> ([HandlerCall k (h_name h) args], Some e)
      | None \<Rightarrow>
          (case call_hdlrs k hs args of
             (evs, r) \<Rightarrow> (HandlerCall k (h_name h) args # evs, r)))"


section \<open>The retry loops\<close>

text \<open>
  The options of \<open>on_predicate\<close> and \<open>on_exception\<close>, together with the decorated target
  and the invocation tuple of the wrapped call.
  The wait generator is given by its \<open>next\<close> function and by the state in which
  \<open>wait_gen(**wait_gen_kwargs)\<close> creates it. The target and \<open>jitter\<close> are opaque
  callables whose results may differ from call to call: \<open>target opts i\<close> is the outcome
  of invocation number \<open>i\<close> of the target within one wrapped call and \<open>jitter opts j\<close>
  the value of call number \<open>j\<close> of \<open>jitter\<close> (both counted from 0).
\<close>

record ('v, 'g, 'n) options =
  wait_gen :: "'g \<Rightarrow> 'n \<times> 'g"
  wait_gen_kwargs :: 'g
  max_tries :: "int option"
  jitter :: "nat \<Rightarrow> 'n"
  on_success :: hdlr_arg
  on_backoff :: hdlr_arg
  on_giveup :: hdlr_arg
  target :: "nat \<Rightarrow> 'v outcome"
  invoc :: invocation

text \<open>
  The local state of \<open>retry\<close>: the variables \<open>tries\<close> and \<open>wait\<close>, the number of
  invocations of the target and of \<open>jitter\<close> so far, and the events so far.
\<close>

record ('g, 'n) loop_state =
  tries :: nat
  wait :: 'g
  calls :: nat
  jitters :: nat
  trace :: "'n event list"

datatype ('v, 'g, 'n) step =
  Continue "('g, 'n) loop_state"
| Done "'v outcome" "('g, 'n) loop_state"

definition start :: "('v, 'g, 'n) options \<Rightarrow> ('g, 'n) loop_state" where
  "start opts = \<lparr>tries = 0, wait = wait_gen_kwargs opts, calls = 0, jitters = 0, trace = []\<rparr>"

text \<open>
  The handler lists that \<open>on_predicate\<close> and \<open>on_exception\<close> build once from their
  options (lines 238 to 240 and 315 to 317).
\<close>

definition success_hdlrs :: "('v, 'g, 'n) options \<Rightarrow> handler list" where
  "success_hdlrs opts = handlers (on_success opts) None"

definition backoff_hdlrs :: "('v, 'g, 'n) options \<Rightarrow> handler list" where
  "backoff_hdlrs opts = handlers (on_backoff opts) (Some log_backoff)"

definition giveup_hdlrs :: "('v, 'g, 'n) options \<Rightarrow> handler list" where
  "giveup_hdlrs opts = handlers (on_giveup opts) (Some log_giveup)"

text \<open>
  The branch taken when the attempt calls for a retry (lines 253 to 265 of
  \<open>on_predicate\<close>, lines 331 to 342 of \<open>on_exception\<close>; the statements are the same).
  \<open>final\<close> is how the give-up branch leaves the wrapped call: \<open>break\<close> and \<open>return ret\<close>
  in predicate mode, a bare \<open>raise\<close> of the caught exception in exception mode.
\<close>

definition retry_failed ::
  "('v, 'g, 'n::plus) options \<Rightarrow> 'v outcome \<Rightarrow> ('g, 'n) loop_state \<Rightarrow> ('v, 'g, 'n) step" where
  "retry_failed opts final s =
     (let s1 = s\<lparr>tries := tries s + 1\<rparr> in
      if max_tries opts \<noteq> None \<and> Some (int (tries s1)) = max_tries opts
      then
        (case call_hdlrs Giveup (giveup_hdlrs opts) [Invoc (invoc opts), Tries (tries s1)] of
           (evs, Some e) \<Rightarrow> Done (Raised e) (s1\<lparr>trace := trace s1 @ evs\<rparr>)
         | (evs, None) \<Rightarrow> Done final (s1\<lparr>trace := trace s1 @ evs\<rparr>))
      else
        (case wait_gen opts (wait s1) of
           (w, g) \<Rightarrow>
             (let seconds = w + jitter opts (jitters s1);
                  s2 = s1\<lparr>wait := g, jitters := jitters s1 + 1\<rparr>
              in case call_hdlrs Backoff (backoff_hdlrs opts) [Invoc (invoc opts), Tries (tries s2)] of
                   (evs, Some e) \<Rightarrow> Done (Raised e) (s2\<lparr>trace := trace s2 @ evs\<rparr>)
                 | (evs, None) \<Rightarrow>
                     Continue (s2\<lparr>trace := trace s2 @ evs @ [Sleep seconds]\<rparr>))))"

text \<open>The branch taken when the attempt succeeds: the success handlers, then \<open>return ret\<close>.\<close>

definition retry_succeeded ::
  "('v, 'g, 'n) options \<Rightarrow> 'v \<Rightarrow> ('g, 'n) loop_state \<Rightarrow> ('v, 'g, 'n) step" where
  "retry_succeeded opts ret s =
     (case call_hdlrs Success (success_hdlrs opts) [Invoc (invoc opts), Tries (tries s)] of
        (evs, Some e) \<Rightarrow> Done (Raised e) (s\<lparr>trace := trace s @ evs\<rparr>)
      | (evs, None) \<Rightarrow> Done (Returned ret) (s\<lparr>trace := trace s @ evs\<rparr>))"

text \<open>
  One pass through the body of \<open>while True\<close> in \<open>on_predicate\<close>. An exception of the
  target is not caught there and leaves the wrapped call at once.
\<close>

definition on_predicate_iter ::
  "('v \<Rightarrow> bool) \<Rightarrow> ('v, 'g, 'n::plus) options \<Rightarrow> ('g, 'n) loop_state \<Rightarrow> ('v, 'g, 'n) step" where
  "on_predicate_iter predicate opts s =
     (let s0 = s\<lparr>calls := calls s + 1\<rparr> in
      case target opts (calls s) of
        Raised e \<Rightarrow> Done (Raised e) s0
      | Returned ret \<Rightarrow>
          if predicate ret then retry_failed opts (Returned ret) s0
          else retry_succeeded opts ret s0)"

text \<open>
  One pass through the body of \<open>while True\<close> in \<open>on_exception\<close>. Only an exception that
  matches \<open>exception\<close> enters the \<open>except\<close> clause; any other leaves the wrapped call.
\<close>

definition on_exception_iter ::
  "string list \<Rightarrow> ('v, 'g, 'n::plus) options \<Rightarrow> ('g, 'n) loop_state \<Rightarrow> ('v, 'g, 'n) step" where
  "on_exception_iter exception opts s =
     (let s0 = s\<lparr>calls := calls s + 1\<rparr> in
      case target opts (calls s) of
        Raised e \<Rightarrow>
          if exc_matches exception e then retry_failed opts (Raised e) s0
          else Done (Raised e) s0
      | Returned ret \<Rightarrow> retry_succeeded opts ret s0)"

text \<open>
  The loop \<open>while True\<close> may run forever, so it is run with fuel: \<open>retry_loop body n s\<close>
  is \<open>None\<close> when \<open>n\<close> passes through the body do not end the wrapped call, and otherwise
  the outcome of the wrapped call with the final state. \<open>loop_state_at body k s\<close> is the
  state at the head of the loop after \<open>k\<close> passes that all ended in \<open>continue\<close>.
\<close>

fun retry_loop ::
  "(('g, 'n) loop_state \<Rightarrow> ('v, 'g, 'n) step) \<Rightarrow> nat \<Rightarrow> ('g, 'n) loop_state
     \<Rightarrow> ('v outcome \<times> ('g, 'n) loop_state) option" where
  "retry_loop body 0 s = None"
| "retry_loop body (Suc n) s =
     (case body s of
        Done r s' \<Rightarrow> Some (r, s')
      | Continue s' \<Rightarrow> retry_loop body n s')"

fun loop_state_at ::
  "(('g, 'n) loop_state \<Rightarrow> ('v, 'g, 'n) step) \<Rightarrow> nat \<Rightarrow> ('g, 'n) loop_state
     \<Rightarrow> ('g, 'n) loop_state option" where
  "loop_state_at body 0 s = Some s"
| "loop_state_at body (Suc k) s =
     (case body s of
        Done r s' \<Rightarrow> None
      | Continue s' \<Rightarrow> loop_state_at body k s')"

definition on_predicate ::
  "('v \<Rightarrow> bool) \<Rightarrow> ('v, 'g, 'n::plus) options \<Rightarrow> nat \<Rightarrow> ('v outcome \<times> ('g, 'n) loop_state) option" where
  "on_predicate predicate opts fuel = retry_loop (on_predicate_iter predicate opts) fuel (start opts)"

definition on_exception ::
  "string list \<Rightarrow> ('v, 'g, 'n::plus) options \<Rightarrow> nat \<Rightarrow> ('v outcome \<times> ('g, 'n) loop_state) option" where
  "on_exception exception opts fuel = retry_loop (on_exception_iter exception opts) fuel (start opts)"

text \<open>The pauses of a trace, and its handler calls of one kind.\<close>

fun pauses :: "'n event list \<Rightarrow> 'n list" where
  "pauses [] = []"
| "pauses (Sleep x # evs) = x # pauses evs"
| "pauses (HandlerCall k nm args # evs) = pauses evs"

fun calls_of :: "hkind \<Rightarrow> 'n event list \<Rightarrow> (string \<times> harg list) list" where
  "calls_of k [] = []"
| "calls_of k (Sleep x # evs) = calls_of k evs"
| "calls_of k (HandlerCall k' nm args # evs) =
     (if k' = k then (nm, args) # calls_of k evs else calls_of k evs)"


text \<open>
  A list of handlers returns normally for an invocation when none of them raises on the
  two arguments \<open>(invoc, tries)\<close> the loops call it with; \<open>handler_events k hs iv t\<close> are
  the events of calling all of \<open>hs\<close> with \<open>invoc = iv\<close> and \<open>tries = t\<close>.
\<close>

definition returns_normally :: "handler list \<Rightarrow> invocation \<Rightarrow> bool" where
  "returns_normally hs iv = (\<forall>h \<in> set hs. \<forall>t. h_body h [Invoc iv, Tries t] = None)"

definition handler_events :: "hkind \<Rightarrow> handler list \<Rightarrow> invocation \<Rightarrow> nat \<Rightarrow> 'n event list" where
  "handler_events k hs iv t = map (\<lambda>h. HandlerCall k (h_name h) [Invoc iv, Tries t]) hs"

text \<open>
  The loop body \<open>body\<close> takes the retry branch at invocation number \<open>i\<close> of the target:
  the outcome of the attempt is what the give-up branch leaves the call with.
\<close>

definition retries_at ::
  "(('g, 'n) loop_state \<Rightarrow> ('v, 'g, 'n::plus) step) \<Rightarrow> ('v, 'g, 'n) options \<Rightarrow> nat \<Rightarrow> bool" where
  "retries_at body opts i =
     (\<forall>s. calls s = i \<longrightarrow> body s = retry_failed opts (target opts i) (s\<lparr>calls := Suc i\<rparr>))"


section \<open>Example configurations\<close>

text \<open>
  Concrete wrapped calls on which the theorems below are instantiated. \<open>falsy\<close> is the
  default predicate \<open>operator.not_\<close> on lists; \<open>boom\<close> is a \<open>ValueError\<close>. The
  configurations wait with \<open>expo()\<close>, use a \<open>jitter\<close> that returns 0 and keep the default
  handlers only; the target of \<open>always_empty\<close> returns the empty list on every attempt,
  the target of \<open>always_raises\<close> raises \<open>boom\<close> on every attempt, and the target of
  \<open>succeeds_at_once\<close> returns \<open>[7]\<close>. The wrapped call is \<open>poll(''queue'')\<close>.
\<close>

definition falsy :: "'a list \<Rightarrow> bool" where
  "falsy v = (v = [])"

definition boom :: exc where
  "boom = Exc [''ValueError'', ''Exception'', ''BaseException''] ''boom''"

definition poll_call :: invocation where
  "poll_call = Invocation (Some ''poll'') [PyVal ''queue'' None] []"

definition always_empty :: "int \<Rightarrow> (int list, nat, int) options" where
  "always_empty m =
     \<lparr>wait_gen = expo 2 None, wait_gen_kwargs = expo_init, max_tries = Some m,
      jitter = (\<lambda>j. 0), on_success = HNone, on_backoff = HNone, on_giveup = HNone,
      target = (\<lambda>i. Returned []), invoc = poll_call\<rparr>"

definition always_raises :: "int \<Rightarrow> (int list, nat, int) options" where
  "always_raises m =
     \<lparr>wait_gen = expo 2 None, wait_gen_kwargs = expo_init, max_tries = Some m,
      jitter = (\<lambda>j. 0), on_success = HNone, on_backoff = HNone, on_giveup = HNone,
      target = (\<lambda>i. Raised boom), invoc = poll_call\<rparr>"

definition succeeds_at_once :: "(int list, nat, int) options" where
  "succeeds_at_once =
     \<lparr>wait_gen = expo 2 None, wait_gen_kwargs = expo_init, max_tries = Some 3,
      jitter = (\<lambda>j. 0), on_success = HNone, on_backoff = HNone, on_giveup = HNone,
      target = (\<lambda>i. Returned [7]), invoc = poll_call\<rparr>"

text \<open>
  The wrapped call \<open>poll((1, 2))\<close>, whose one positional argument is a pair, and a
  handler of the caller that raises \<open>RuntimeError\<close> whenever it is called.
\<close>

definition pair_call :: invocation where
  "pair_call =
     Invocation (Some ''poll'')
       [PyVal ''(1, 2)'' (Some [PyVal ''1'' None, PyVal ''2'' None])] []"

definition handler_failed :: exc where
  "handler_failed = Exc [''RuntimeError'', ''Exception'', ''BaseException''] ''handler failed''"

definition failing_handler :: handler where
  "failing_handler = \<lparr>h_name = ''failing_handler'', h_body = (\<lambda>args. Some handler_failed)\<rparr>"

text \<open>
  A give-up handler written as the docstrings of \<open>on_predicate\<close> and \<open>on_exception\<close>
  and the example of the module docstring describe it,
  \<open>def giveup_stat(invoc, tries, exception)\<close>: it takes exactly three positional
  arguments.
\<close>

definition three_params :: "harg list \<Rightarrow> exc option" where
  "three_params args =
     (if length args = 3 then None else Some (TypeError ''wrong number of arguments''))"

definition giveup_stat :: handler where
  "giveup_stat = \<lparr>h_name = ''giveup_stat'', h_body = three_params\<rparr>"


section \<open>The cap of the wait generators\<close>

lemma expo_state_inv:
  fixes base m :: "'a::{linorder,power}"
  shows "gen_state (expo base (Some m)) expo_init k \<le> k
     \<and> (gen_state (expo base (Some m)) expo_init k = k
          \<or> \<not> base ^ gen_state (expo base (Some m)) expo_init k < m)
     \<and> (\<forall>i < gen_state (expo base (Some m)) expo_init k. base ^ i < m)"
proof (induction k)
  case 0
  show ?case by (simp add: expo_init_def)
next
  case (Suc k)
  then show ?case
    by (auto simp: expo_def Let_def less_Suc_eq)
qed

lemma expo_capped:
  fixes base m :: "'a::{linorder,power}"
  assumes "n \<le> k" and "m \<le> base ^ n"
  shows "gen_nth (expo base (Some m)) expo_init k = m"
proof -
  let ?j = "gen_state (expo base (Some m)) expo_init k"
  have inv: "?j \<le> k" "?j = k \<or> \<not> base ^ ?j < m" "\<forall>i < ?j. base ^ i < m"
    using expo_state_inv [of base m k] by blast+
  have "\<not> n < ?j" using inv(3) assms(2) by (auto simp: not_less [symmetric])
  then have "\<not> base ^ ?j < m" using inv(1,2) assms by (cases "?j = k") (auto simp: not_less)
  then show ?thesis by (simp add: gen_nth_def expo_def Let_def)
qed

lemma fibo_Some:
  "fibo (Some m) (a, b) = (if a < m then (a, (b, a + b)) else (m, (a, b)))"
  by (simp add: fibo_def)

lemma fibo_state_inv:
  fixes m :: "'a::{linorder,one,plus}"
  shows "\<exists>j \<le> k. gen_state (fibo (Some m)) fibo_init k = (fib_term j, fib_term (Suc j))
     \<and> (j = k \<or> \<not> fib_term j < m)
     \<and> (\<forall>i < j. (fib_term i :: 'a) < m)"
proof (induction k)
  case 0
  show ?case by (simp add: fibo_init_def)
next
  case (Suc k)
  then obtain j where j: "j \<le> k"
    "gen_state (fibo (Some m)) fibo_init k = (fib_term j, fib_term (Suc j))"
    "j = k \<or> \<not> fib_term j < m" "\<forall>i < j. (fib_term i :: 'a) < m" by blast
  show ?case
  proof (cases "(fib_term j :: 'a) < m")
    case True
    with j have "j = k" by simp
    with True j show ?thesis
      by (intro exI [of _ "Suc k"]) (auto simp: fibo_Some less_Suc_eq)
  next
    case False
    with j show ?thesis
      by (intro exI [of _ j]) (auto simp: fibo_Some)
  qed
qed

lemma fibo_capped:
  fixes m :: "'a::{linorder,one,plus}"
  assumes "n \<le> k" and "m \<le> fib_term n"
  shows "gen_nth (fibo (Some m)) fibo_init k = m"
proof -
  obtain j where j: "j \<le> k"
    "gen_state (fibo (Some m)) fibo_init k = (fib_term j, fib_term (Suc j))"
    "j = k \<or> \<not> fib_term j < m" "\<forall>i < j. (fib_term i :: 'a) < m"
    using fibo_state_inv [of k m] by blast
  have "\<not> n < j" using j(4) assms(2) by (auto simp: not_less [symmetric])
  then have "\<not> (fib_term j :: 'a) < m"
    using j(1,3) assms by (cases "j = k") (auto simp: not_less)
  then show ?thesis using j(2) by (simp add: gen_nth_def fibo_Some)
qed

text \<open>
  Claim C7. For \<open>expo\<close> and for \<open>fibo\<close> created with a cap \<open>max_value = m\<close>: if the term
  of the true sequence at some position \<open>n\<close> reaches or exceeds \<open>m\<close> (\<open>base ^ n\<close> for
  \<open>expo\<close>, the \<open>n\<close>-th Fibonacci number for \<open>fibo\<close>), then the value yielded at every
  position \<open>k\<close> from \<open>n\<close> on is exactly \<open>m\<close>; the generator never goes back to the
  true sequence.
\<close>

theorem capped_forever:
  fixes base m :: "'a::{linorder,power,plus}"
  assumes "n \<le> k"
  shows "(m \<le> base ^ n \<longrightarrow> gen_nth (expo base (Some m)) expo_init k = m)
       \<and> (m \<le> fib_term n \<longrightarrow> gen_nth (fibo (Some m)) fibo_init k = m)"
  using assms expo_capped [of n k m base] fibo_capped [of n k m] by blast

theorem capped_forever_witness:
  "(2::nat) \<le> 5 \<and> (3::int) \<le> 2 ^ 2 \<and> gen_nth (expo 2 (Some (3::int))) expo_init 5 = 3
    \<and> (3::int) \<le> fib_term 3 \<and> gen_nth (fibo (Some (3::int))) fibo_init 5 = 3"
  using capped_forever [of 2 5 "3::int" 2] capped_forever [of 3 5 "3::int" 2]
  by (simp add: eval_nat_numeral)


section \<open>The handler lists\<close>

text \<open>
  Claim C10. Whatever the options \<open>on_backoff\<close> and \<open>on_giveup\<close> hold (\<open>None\<close>, one
  callable, or an iterable of callables), the backoff and giveup handler lists start
  with the default logging handler, followed by the caller's handlers in the order
  given; the success handler list has no default: it holds the caller's handlers only
  and is empty when \<open>on_success\<close> is \<open>None\<close>.
\<close>

theorem default_handler_first:
  "backoff_hdlrs (opts\<lparr>on_backoff := HNone\<rparr>) = [log_backoff]
   \<and> backoff_hdlrs (opts\<lparr>on_backoff := HCallable h\<rparr>) = [log_backoff, h]
   \<and> backoff_hdlrs (opts\<lparr>on_backoff := HIterable hs\<rparr>) = log_backoff # hs
   \<and> giveup_hdlrs (opts\<lparr>on_giveup := HNone\<rparr>) = [log_giveup]
   \<and> giveup_hdlrs (opts\<lparr>on_giveup := HCallable h\<rparr>) = [log_giveup, h]
   \<and> giveup_hdlrs (opts\<lparr>on_giveup := HIterable hs\<rparr>) = log_giveup # hs
   \<and> success_hdlrs (opts\<lparr>on_success := HNone\<rparr>) = []
   \<and> success_hdlrs (opts\<lparr>on_success := HCallable h\<rparr>) = [h]
   \<and> success_hdlrs (opts\<lparr>on_success := HIterable hs\<rparr>) = hs"
  by (simp add: backoff_hdlrs_def giveup_hdlrs_def success_hdlrs_def handlers_def)


section \<open>Steps of the retry loops\<close>

lemma pauses_append: "pauses (xs @ ys) = pauses xs @ pauses ys"
  by (induction xs rule: pauses.induct) auto

lemma calls_of_append: "calls_of k (xs @ ys) = calls_of k xs @ calls_of k ys"
  by (induction k xs rule: calls_of.induct) auto

lemma call_hdlrs_normal:
  "\<forall>h \<in> set hs. h_body h args = None \<Longrightarrow>
     call_hdlrs k hs args = (map (\<lambda>h. HandlerCall k (h_name h) args) hs, None)"
  by (induction hs) auto

lemma call_hdlrs_returns:
  "returns_normally hs iv \<Longrightarrow>
     call_hdlrs k hs [Invoc iv, Tries t] = (handler_events k hs iv t, None)"
  unfolding returns_normally_def handler_events_def by (rule call_hdlrs_normal) simp

lemma pauses_handler_events: "pauses (handler_events k hs iv t) = []"
  by (induction hs) (auto simp: handler_events_def)

lemma calls_of_handler_events:
  "calls_of k' (handler_events k hs iv t :: 'n event list) =
     (if k' = k then map (\<lambda>h. (h_name h, [Invoc iv, Tries t])) hs else [])"
  by (induction hs) (auto simp: handler_events_def)

lemma retry_failed_giveup:
  assumes "max_tries opts = Some (int (Suc (tries s)))" and "returns_normally (giveup_hdlrs opts) (invoc opts)"
  shows "retry_failed opts final s =
           Done final (s\<lparr>tries := Suc (tries s),
                         trace := trace s @ handler_events Giveup (giveup_hdlrs opts) (invoc opts) (Suc (tries s))\<rparr>)"
  using assms by (simp add: retry_failed_def call_hdlrs_returns)

lemma retry_failed_backoff:
  assumes "max_tries opts \<noteq> Some (int (Suc (tries s)))" and "returns_normally (backoff_hdlrs opts) (invoc opts)"
  shows "retry_failed opts final s =
           Continue (s\<lparr>tries := Suc (tries s),
                        wait := snd (wait_gen opts (wait s)),
                        jitters := Suc (jitters s),
                        trace := trace s @ handler_events Backoff (backoff_hdlrs opts) (invoc opts) (Suc (tries s))
                                   @ [Sleep (fst (wait_gen opts (wait s)) + jitter opts (jitters s))]\<rparr>)"
  using assms by (auto simp add: retry_failed_def call_hdlrs_returns Let_def split: prod.splits)


lemma on_predicate_retries:
  "target opts i = Returned v \<Longrightarrow> predicate v \<Longrightarrow> retries_at (on_predicate_iter predicate opts) opts i"
  by (simp add: retries_at_def on_predicate_iter_def)

lemma on_exception_retries:
  "target opts i = Raised e \<Longrightarrow> exc_matches exception e \<Longrightarrow>
     retries_at (on_exception_iter exception opts) opts i"
  by (simp add: retries_at_def on_exception_iter_def)

lemma retry_loop_more_fuel:
  "retry_loop body n s = Some r \<Longrightarrow> retry_loop body (n + k) s = Some r"
  by (induction body n s rule: retry_loop.induct) (auto split: step.splits)

lemma retry_loop_gives_up:
  assumes mt: "max_tries opts = Some (int n)"
    and rb: "returns_normally (backoff_hdlrs opts) (invoc opts)"
    and rg: "returns_normally (giveup_hdlrs opts) (invoc opts)"
    and d: "tries s + Suc d = n"
    and fail: "\<forall>i. calls s \<le> i \<and> i \<le> calls s + d \<longrightarrow> retries_at body opts i"
  shows "(\<exists>s'. retry_loop body (Suc d) s = Some (target opts (calls s + d), s')
           \<and> calls s' = calls s + Suc d \<and> tries s' = n
           \<and> calls_of Giveup (trace s') =
                calls_of Giveup (trace s) @ map (\<lambda>h. (h_name h, [Invoc (invoc opts), Tries n])) (giveup_hdlrs opts)
           \<and> length (pauses (trace s')) = length (pauses (trace s)) + d)
       \<and> retry_loop body d s = None"
  using d fail
proof (induction d arbitrary: s)
  case 0
  let ?s0 = "s\<lparr>calls := Suc (calls s)\<rparr>"
  have b: "body s = retry_failed opts (target opts (calls s)) ?s0"
    using "0.prems"(2) by (simp add: retries_at_def)
  have "max_tries opts = Some (int (Suc (tries ?s0)))" using mt "0.prems"(1) by simp
  from retry_failed_giveup [OF this rg, of "target opts (calls s)"] b
  show ?case
    using "0.prems"(1)
    by (simp add: calls_of_append calls_of_handler_events pauses_append pauses_handler_events)
next
  case (Suc d)
  let ?s0 = "s\<lparr>calls := Suc (calls s)\<rparr>"
  let ?s1 = "?s0\<lparr>tries := Suc (tries ?s0),
                        wait := snd (wait_gen opts (wait ?s0)),
                        jitters := Suc (jitters ?s0),
                        trace := trace ?s0 @ handler_events Backoff (backoff_hdlrs opts) (invoc opts) (Suc (tries ?s0))
                                   @ [Sleep (fst (wait_gen opts (wait ?s0)) + jitter opts (jitters ?s0))]\<rparr>"
  have b: "body s = retry_failed opts (target opts (calls s)) ?s0"
    using Suc.prems(2) by (simp add: retries_at_def)
  have "max_tries opts \<noteq> Some (int (Suc (tries ?s0)))" using mt Suc.prems(1) by simp
  from retry_failed_backoff [OF this rb, of "target opts (calls s)"] b
  have step: "body s = Continue ?s1" by simp
  have d1: "tries ?s1 + Suc d = n" using Suc.prems(1) by simp
  have f1: "\<forall>i. calls ?s1 \<le> i \<and> i \<le> calls ?s1 + d \<longrightarrow> retries_at body opts i"
    using Suc.prems(2) by simp
  from Suc.IH [OF d1 f1] step
  show ?case
    by (auto simp add: calls_of_append calls_of_handler_events pauses_append pauses_handler_events)
qed


lemma loop_state_at_Suc:
  "loop_state_at body (Suc k) s0 =
     (case loop_state_at body k s0 of
        None \<Rightarrow> None
      | Some s \<Rightarrow> (case body s of Continue s' \<Rightarrow> Some s' | Done r s' \<Rightarrow> None))"
proof (induction k arbitrary: s0)
  case 0
  show ?case by (simp split: step.splits)
next
  case (Suc k)
  show ?case
  proof (cases "body s0")
    case (Continue s1)
    then show ?thesis using Suc.IH [of s1] by simp
  next
    case (Done r s1)
    then show ?thesis by simp
  qed
qed

lemma loop_state_at_invariant:
  assumes "P 0 s0"
    and "\<And>j s s'. P j s \<Longrightarrow> body s = Continue s' \<Longrightarrow> P (Suc j) s'"
  shows "loop_state_at body k s0 = Some s \<Longrightarrow> P k s"
proof (induction k arbitrary: s)
  case 0
  then show ?case using assms(1) by simp
next
  case (Suc k)
  then obtain t where t: "loop_state_at body k s0 = Some t" "body t = Continue s"
    by (auto simp: loop_state_at_Suc simp del: loop_state_at.simps
        split: option.splits step.splits)
  from Suc.IH [OF t(1)] assms(2) t(2) show ?case by blast
qed

lemma loop_state_at_progress:
  assumes "P 0 s0"
    and "\<And>j s. P j s \<Longrightarrow> \<exists>s'. body s = Continue s' \<and> P (Suc j) s'"
  shows "\<exists>s. loop_state_at body k s0 = Some s \<and> P k s"
proof (induction k)
  case 0
  show ?case using assms(1) by simp
next
  case (Suc k)
  then obtain t where t: "loop_state_at body k s0 = Some t" "P k t" by blast
  from assms(2) [OF t(2)] obtain s' where "body t = Continue s'" "P (Suc k) s'" by blast
  with t(1) show ?case
    by (simp add: loop_state_at_Suc del: loop_state_at.simps)
qed

lemma retry_loop_final:
  "retry_loop body n s0 = Some (r, s') \<Longrightarrow>
     \<exists>k s. k < n \<and> loop_state_at body k s0 = Some s \<and> body s = Done r s'"
proof (induction n arbitrary: s0)
  case 0
  then show ?case by simp
next
  case (Suc n)
  show ?case
  proof (cases "body s0")
    case (Continue s1)
    with Suc.prems have "retry_loop body n s1 = Some (r, s')" by simp
    from Suc.IH [OF this] obtain k s where
      "k < n" "loop_state_at body k s1 = Some s" "body s = Done r s'" by blast
    with Continue show ?thesis
      by (intro exI [of _ "Suc k"] exI [of _ s]) simp
  next
    case (Done r1 s1)
    with Suc.prems show ?thesis
      by (intro exI [of _ 0] exI [of _ s0]) simp
  qed
qed

lemma retry_loop_never:
  assumes "P 0 s0"
    and "\<And>j s. P j s \<Longrightarrow> \<exists>s'. body s = Continue s' \<and> P (Suc j) s'"
  shows "retry_loop body n s0 = None"
proof (cases "retry_loop body n s0")
  case None
  then show ?thesis .
next
  case (Some p)
  obtain r s' where "p = (r, s')" by (cases p)
  with Some retry_loop_final [of body n s0 r s'] obtain k s where
    ks: "loop_state_at body k s0 = Some s" "body s = Done r s'" by blast
  from loop_state_at_progress [of P s0 body k, OF assms] ks(1) have "P k s" by simp
  from assms(2) [OF this] ks(2) show ?thesis by simp
qed


lemma call_hdlrs_pauses: "call_hdlrs k hs args = (evs, r) \<Longrightarrow> pauses evs = []"
  by (induction hs arbitrary: evs r) (auto split: option.splits prod.splits)

lemma call_hdlrs_calls_of: "call_hdlrs k hs args = (evs, r) \<Longrightarrow> k' \<noteq> k \<Longrightarrow> calls_of k' evs = []"
  by (induction hs arbitrary: evs r) (auto split: option.splits prod.splits)

lemma giveup_hdlrs_Cons: "giveup_hdlrs opts = log_giveup # handlers (on_giveup opts) None"
  by (cases "on_giveup opts") (simp_all add: giveup_hdlrs_def handlers_def)

lemma call_giveup_hdlrs_first:
  "call_hdlrs Giveup (giveup_hdlrs opts) [Invoc (invoc opts), Tries t] = (evs, r) \<Longrightarrow>
     (''_log_giveup'', [Invoc (invoc opts), Tries t]) \<in> set (calls_of Giveup evs)"
  by (auto simp: giveup_hdlrs_Cons log_giveup_def split: prod.splits option.splits)

lemma retry_failed_Continue:
  assumes "retry_failed opts final s = Continue s'"
  shows "tries s' = Suc (tries s) \<and> max_tries opts \<noteq> Some (int (Suc (tries s)))
       \<and> calls s' = calls s \<and> jitters s' = Suc (jitters s)
       \<and> wait s' = snd (wait_gen opts (wait s))
       \<and> pauses (trace s') = pauses (trace s) @ [fst (wait_gen opts (wait s)) + jitter opts (jitters s)]
       \<and> calls_of Giveup (trace s') = calls_of Giveup (trace s)"
  using assms
  by (auto simp: retry_failed_def Let_def pauses_append calls_of_append
      dest: call_hdlrs_pauses call_hdlrs_calls_of
      split: if_splits prod.splits option.splits)

lemma retry_failed_Done:
  assumes "retry_failed opts final s = Done r s'"
  shows "tries s' = Suc (tries s) \<and> calls s' = calls s
       \<and> pauses (trace s') = pauses (trace s)
       \<and> (max_tries opts = Some (int (Suc (tries s))) \<longrightarrow>
            (''_log_giveup'', [Invoc (invoc opts), Tries (Suc (tries s))]) \<in> set (calls_of Giveup (trace s')))"
  using assms
  by (auto simp: retry_failed_def Let_def pauses_append calls_of_append
      dest: call_hdlrs_pauses call_giveup_hdlrs_first
      split: if_splits prod.splits option.splits)

lemma retry_succeeded_Done:
  "\<exists>r evs. retry_succeeded opts ret s = Done r (s\<lparr>trace := trace s @ evs\<rparr>) \<and> pauses evs = []"
  by (auto simp: retry_succeeded_def dest: call_hdlrs_pauses split: prod.splits option.splits)


lemma on_predicate_iter_Continue:
  assumes "on_predicate_iter predicate opts s = Continue s'"
  shows "tries s' = Suc (tries s) \<and> max_tries opts \<noteq> Some (int (tries s'))
       \<and> calls s' = Suc (calls s) \<and> jitters s' = Suc (jitters s)
       \<and> wait s' = snd (wait_gen opts (wait s))
       \<and> pauses (trace s') = pauses (trace s) @ [fst (wait_gen opts (wait s)) + jitter opts (jitters s)]
       \<and> calls_of Giveup (trace s') = calls_of Giveup (trace s)"
proof (cases "target opts (calls s)")
  case (Returned ret)
  show ?thesis
  proof (cases "predicate ret")
    case True
    with Returned assms
    have "retry_failed opts (Returned ret) (s\<lparr>calls := Suc (calls s)\<rparr>) = Continue s'"
      by (simp add: on_predicate_iter_def)
    from retry_failed_Continue [OF this] show ?thesis by simp
  next
    case False
    with Returned assms retry_succeeded_Done [of opts ret "s\<lparr>calls := Suc (calls s)\<rparr>"]
    show ?thesis by (auto simp: on_predicate_iter_def)
  qed
next
  case (Raised e)
  with assms show ?thesis by (simp add: on_predicate_iter_def)
qed

lemma on_exception_iter_Continue:
  assumes "on_exception_iter exception opts s = Continue s'"
  shows "tries s' = Suc (tries s) \<and> max_tries opts \<noteq> Some (int (tries s'))
       \<and> calls s' = Suc (calls s) \<and> jitters s' = Suc (jitters s)
       \<and> wait s' = snd (wait_gen opts (wait s))
       \<and> pauses (trace s') = pauses (trace s) @ [fst (wait_gen opts (wait s)) + jitter opts (jitters s)]
       \<and> calls_of Giveup (trace s') = calls_of Giveup (trace s)"
proof (cases "target opts (calls s)")
  case (Returned ret)
  with assms retry_succeeded_Done [of opts ret "s\<lparr>calls := Suc (calls s)\<rparr>"]
  show ?thesis by (auto simp: on_exception_iter_def)
next
  case (Raised e)
  show ?thesis
  proof (cases "exc_matches exception e")
    case True
    with Raised assms
    have "retry_failed opts (Raised e) (s\<lparr>calls := Suc (calls s)\<rparr>) = Continue s'"
      by (simp add: on_exception_iter_def)
    from retry_failed_Continue [OF this] show ?thesis by simp
  next
    case False
    with Raised assms show ?thesis by (simp add: on_exception_iter_def)
  qed
qed

lemma on_predicate_iter_Done:
  assumes "on_predicate_iter predicate opts s = Done r s'"
  shows "pauses (trace s') = pauses (trace s)
       \<and> (tries s' = tries s
            \<or> tries s' = Suc (tries s)
              \<and> (max_tries opts = Some (int (tries s')) \<longrightarrow>
                   (''_log_giveup'', [Invoc (invoc opts), Tries (tries s')]) \<in> set (calls_of Giveup (trace s'))))"
proof (cases "target opts (calls s)")
  case (Returned ret)
  show ?thesis
  proof (cases "predicate ret")
    case True
    with Returned assms
    have "retry_failed opts (Returned ret) (s\<lparr>calls := Suc (calls s)\<rparr>) = Done r s'"
      by (simp add: on_predicate_iter_def)
    from retry_failed_Done [OF this] show ?thesis by simp
  next
    case False
    with Returned assms retry_succeeded_Done [of opts ret "s\<lparr>calls := Suc (calls s)\<rparr>"]
    show ?thesis by (auto simp: on_predicate_iter_def pauses_append)
  qed
next
  case (Raised e)
  with assms show ?thesis by (auto simp add: on_predicate_iter_def)
qed

lemma on_exception_iter_Done:
  assumes "on_exception_iter exception opts s = Done r s'"
  shows "pauses (trace s') = pauses (trace s)
       \<and> (tries s' = tries s
            \<or> tries s' = Suc (tries s)
              \<and> (max_tries opts = Some (int (tries s')) \<longrightarrow>
                   (''_log_giveup'', [Invoc (invoc opts), Tries (tries s')]) \<in> set (calls_of Giveup (trace s'))))"
proof (cases "target opts (calls s)")
  case (Returned ret)
  with assms retry_succeeded_Done [of opts ret "s\<lparr>calls := Suc (calls s)\<rparr>"]
  show ?thesis by (auto simp: on_exception_iter_def pauses_append)
next
  case (Raised e)
  show ?thesis
  proof (cases "exc_matches exception e")
    case True
    with Raised assms
    have "retry_failed opts (Raised e) (s\<lparr>calls := Suc (calls s)\<rparr>) = Done r s'"
      by (simp add: on_exception_iter_def)
    from retry_failed_Done [OF this] show ?thesis by simp
  next
    case False
    with Raised assms show ?thesis by (auto simp add: on_exception_iter_def)
  qed
qed

lemma body_Continue:
  assumes "body = on_predicate_iter predicate opts \<or> body = on_exception_iter exception opts"
    and "body s = Continue s'"
  shows "tries s' = Suc (tries s) \<and> max_tries opts \<noteq> Some (int (tries s'))
       \<and> calls s' = Suc (calls s) \<and> jitters s' = Suc (jitters s)
       \<and> wait s' = snd (wait_gen opts (wait s))
       \<and> pauses (trace s') = pauses (trace s) @ [fst (wait_gen opts (wait s)) + jitter opts (jitters s)]
       \<and> calls_of Giveup (trace s') = calls_of Giveup (trace s)"
proof (rule disjE [OF assms(1)])
  assume "body = on_predicate_iter predicate opts"
  with assms(2) show ?thesis by (intro on_predicate_iter_Continue [of predicate]) simp
next
  assume "body = on_exception_iter exception opts"
  with assms(2) show ?thesis by (intro on_exception_iter_Continue [of exception]) simp
qed

lemma body_Done:
  assumes "body = on_predicate_iter predicate opts \<or> body = on_exception_iter exception opts"
    and "body s = Done r s'"
  shows "pauses (trace s') = pauses (trace s)
       \<and> (tries s' = tries s
            \<or> tries s' = Suc (tries s)
              \<and> (max_tries opts = Some (int (tries s')) \<longrightarrow>
                   (''_log_giveup'', [Invoc (invoc opts), Tries (tries s')]) \<in> set (calls_of Giveup (trace s'))))"
proof (rule disjE [OF assms(1)])
  assume "body = on_predicate_iter predicate opts"
  with assms(2) show ?thesis by (intro on_predicate_iter_Done [of predicate opts s r]) simp
next
  assume "body = on_exception_iter exception opts"
  with assms(2) show ?thesis by (intro on_exception_iter_Done [of exception opts s r]) simp
qed

lemma never_gives_up:
  assumes mt: "max_tries opts = Some 0"
    and rb: "returns_normally (backoff_hdlrs opts) (invoc opts)"
    and fail: "\<forall>i. retries_at body opts i"
  shows "retry_loop body fuel (start opts) = None
       \<and> (\<exists>s. loop_state_at body k (start opts) = Some s \<and> calls s = k \<and> tries s = k
              \<and> length (pauses (trace s)) = k \<and> calls_of Giveup (trace s) = [])"
proof -
  let ?P = "\<lambda>j s. calls s = j \<and> tries s = j \<and> length (pauses (trace s)) = j
                    \<and> calls_of Giveup (trace s) = []"
  have init: "?P 0 (start opts)" by (simp add: start_def)
  have step: "\<exists>s'. body s = Continue s' \<and> ?P (Suc j) s'" if "?P j s" for j s
  proof -
    let ?s0 = "s\<lparr>calls := Suc (calls s)\<rparr>"
    have b: "body s = retry_failed opts (target opts (calls s)) ?s0"
      using fail by (simp add: retries_at_def)
    have "max_tries opts \<noteq> Some (int (Suc (tries ?s0)))" using mt by simp
    from retry_failed_backoff [OF this rb, of "target opts (calls s)"] b that
    show ?thesis
      by (simp add: pauses_append pauses_handler_events calls_of_append calls_of_handler_events)
  qed
  have "retry_loop body fuel (start opts) = None"
    by (rule retry_loop_never [where P = ?P, OF init]) (rule step)
  moreover have "\<exists>s. loop_state_at body k (start opts) = Some s \<and> ?P k s"
    by (rule loop_state_at_progress [where P = ?P, OF init]) (rule step)
  ultimately show ?thesis by simp
qed

lemma retry_loop_less_fuel:
  assumes "retry_loop body n s = None" and "k \<le> n"
  shows "retry_loop body k s = None"
proof (cases "retry_loop body k s")
  case None
  then show ?thesis .
next
  case (Some r)
  from retry_loop_more_fuel [OF Some, of "n - k"] assms show ?thesis by simp
qed

lemma retry_loop_exhausted:
  assumes mt: "max_tries opts = Some (int n)" and pos: "1 \<le> n"
    and rb: "returns_normally (backoff_hdlrs opts) (invoc opts)"
    and rg: "returns_normally (giveup_hdlrs opts) (invoc opts)"
    and fail: "\<forall>i<n. retries_at body opts i"
  shows "\<exists>s. (\<forall>fuel. retry_loop body fuel (start opts) =
                  (if fuel < n then None else Some (target opts (n - 1), s)))
           \<and> calls s = n \<and> tries s = n
           \<and> calls_of Giveup (trace s) = map (\<lambda>h. (h_name h, [Invoc (invoc opts), Tries n])) (giveup_hdlrs opts)
           \<and> length (pauses (trace s)) = n - 1"
proof -
  obtain d where d: "n = Suc d" using pos by (cases n) simp_all
  have t: "tries (start opts) + Suc d = n" by (simp add: d start_def)
  have f: "\<forall>i. calls (start opts) \<le> i \<and> i \<le> calls (start opts) + d \<longrightarrow> retries_at body opts i"
    using fail by (simp add: d start_def less_Suc_eq_le)
  from retry_loop_gives_up [OF mt rb rg t f] obtain s where
    s: "retry_loop body (Suc d) (start opts) = Some (target opts (calls (start opts) + d), s)"
       "calls s = calls (start opts) + Suc d" "tries s = n"
       "calls_of Giveup (trace s) = calls_of Giveup (trace (start opts))
           @ map (\<lambda>h. (h_name h, [Invoc (invoc opts), Tries n])) (giveup_hdlrs opts)"
       "length (pauses (trace s)) = length (pauses (trace (start opts))) + d"
    and none: "retry_loop body d (start opts) = None"
    by blast
  have "retry_loop body fuel (start opts) =
          (if fuel < n then None else Some (target opts (n - 1), s))" for fuel
  proof (cases "fuel < n")
    case True
    then have "fuel \<le> d" by (simp add: d)
    from retry_loop_less_fuel [OF none this] True show ?thesis by simp
  next
    case False
    then have "fuel = Suc d + (fuel - Suc d)" by (simp add: d)
    with retry_loop_more_fuel [OF s(1), of "fuel - Suc d"] False show ?thesis
      by (simp add: d start_def)
  qed
  with s(2-5) show ?thesis by (intro exI [of _ s]) (simp add: d start_def)
qed

lemma pauses_at_head:
  assumes mode: "body = on_predicate_iter predicate opts \<or> body = on_exception_iter exception opts"
    and at: "loop_state_at body k (start opts) = Some s"
  shows "jitters s = k \<and> wait s = gen_state (wait_gen opts) (wait_gen_kwargs opts) k
       \<and> pauses (trace s) =
           map (\<lambda>i. gen_nth (wait_gen opts) (wait_gen_kwargs opts) i + jitter opts i) [0..<k]"
proof (rule loop_state_at_invariant
    [where P = "\<lambda>k s. jitters s = k \<and> wait s = gen_state (wait_gen opts) (wait_gen_kwargs opts) k
       \<and> pauses (trace s) =
           map (\<lambda>i. gen_nth (wait_gen opts) (wait_gen_kwargs opts) i + jitter opts i) [0..<k]",
     OF _ _ at])
  show "jitters (start opts) = 0
      \<and> wait (start opts) = gen_state (wait_gen opts) (wait_gen_kwargs opts) 0
      \<and> pauses (trace (start opts)) =
           map (\<lambda>i. gen_nth (wait_gen opts) (wait_gen_kwargs opts) i + jitter opts i) [0..<0]"
    by (simp add: start_def)
next
  fix j t t'
  assume inv: "jitters t = j \<and> wait t = gen_state (wait_gen opts) (wait_gen_kwargs opts) j
       \<and> pauses (trace t) =
           map (\<lambda>i. gen_nth (wait_gen opts) (wait_gen_kwargs opts) i + jitter opts i) [0..<j]"
    and step: "body t = Continue t'"
  from body_Continue [OF mode step] inv
  show "jitters t' = Suc j \<and> wait t' = gen_state (wait_gen opts) (wait_gen_kwargs opts) (Suc j)
       \<and> pauses (trace t') =
           map (\<lambda>i. gen_nth (wait_gen opts) (wait_gen_kwargs opts) i + jitter opts i) [0..<Suc j]"
    by (simp add: gen_nth_def)
qed

lemma retry_failed_Done_no_giveup:
  assumes "retry_failed opts final s = Done r s'"
    and "max_tries opts \<noteq> Some (int (Suc (tries s)))"
  shows "calls_of Giveup (trace s') = calls_of Giveup (trace s)"
  using assms
  by (auto simp: retry_failed_def Let_def calls_of_append
      dest: call_hdlrs_calls_of
      split: if_splits prod.splits option.splits)

lemma retry_succeeded_no_giveup:
  assumes "retry_succeeded opts ret s = Done r s'"
  shows "calls_of Giveup (trace s') = calls_of Giveup (trace s)"
  using assms
  by (auto simp: retry_succeeded_def calls_of_append
      dest: call_hdlrs_calls_of
      split: prod.splits option.splits)

lemma body_Done_no_giveup:
  assumes mode: "body = on_predicate_iter predicate opts \<or> body = on_exception_iter exception opts"
    and mt: "max_tries opts = Some 0"
    and step: "body s = Done r s'"
  shows "calls_of Giveup (trace s') = calls_of Giveup (trace s)"
proof -
  let ?s0 = "s\<lparr>calls := Suc (calls s)\<rparr>"
  have ne: "max_tries opts \<noteq> Some (int (Suc (tries ?s0)))" using mt by simp
  from mode show ?thesis
  proof
    assume b: "body = on_predicate_iter predicate opts"
    show ?thesis
    proof (cases "target opts (calls s)")
      case (Returned ret)
      show ?thesis
      proof (cases "predicate ret")
        case True
        with Returned b step have "retry_failed opts (Returned ret) ?s0 = Done r s'"
          by (simp add: on_predicate_iter_def)
        from retry_failed_Done_no_giveup [OF this ne] show ?thesis by simp
      next
        case False
        with Returned b step have "retry_succeeded opts ret ?s0 = Done r s'"
          by (simp add: on_predicate_iter_def)
        from retry_succeeded_no_giveup [OF this] show ?thesis by simp
      qed
    next
      case (Raised e)
      with b step show ?thesis by (auto simp: on_predicate_iter_def)
    qed
  next
    assume b: "body = on_exception_iter exception opts"
    show ?thesis
    proof (cases "target opts (calls s)")
      case (Returned ret)
      with b step have "retry_succeeded opts ret ?s0 = Done r s'"
        by (simp add: on_exception_iter_def)
      from retry_succeeded_no_giveup [OF this] show ?thesis by simp
    next
      case (Raised e)
      show ?thesis
      proof (cases "exc_matches exception e")
        case True
        with Raised b step have "retry_failed opts (Raised e) ?s0 = Done r s'"
          by (simp add: on_exception_iter_def)
        from retry_failed_Done_no_giveup [OF this ne] show ?thesis by simp
      next
        case False
        with Raised b step show ?thesis by (auto simp: on_exception_iter_def)
      qed
    qed
  qed
qed

lemma giveup_never_called:
  assumes mode: "body = on_predicate_iter predicate opts \<or> body = on_exception_iter exception opts"
    and mt: "max_tries opts = Some 0"
  shows "(loop_state_at body k (start opts) = Some s \<longrightarrow> calls_of Giveup (trace s) = [])
       \<and> (retry_loop body fuel (start opts) = Some (r, s') \<longrightarrow> calls_of Giveup (trace s') = [])"
proof -
  have head: "calls_of Giveup (trace t) = []" if "loop_state_at body j (start opts) = Some t" for j t
  proof (rule loop_state_at_invariant [where P = "\<lambda>j t. calls_of Giveup (trace t) = []", OF _ _ that])
    show "calls_of Giveup (trace (start opts)) = []" by (simp add: start_def)
  next
    fix j t t'
    assume "calls_of Giveup (trace t) = []" and "body t = Continue t'"
    with body_Continue [OF mode, of t t'] show "calls_of Giveup (trace t') = []" by simp
  qed
  show ?thesis
  proof (intro conjI impI)
    assume "loop_state_at body k (start opts) = Some s"
    then show "calls_of Giveup (trace s) = []" by (rule head)
  next
    assume "retry_loop body fuel (start opts) = Some (r, s')"
    from retry_loop_final [OF this] obtain j t where
      jt: "loop_state_at body j (start opts) = Some t" "body t = Done r s'" by blast
    from body_Done_no_giveup [OF mode mt jt(2)] head [OF jt(1)]
    show "calls_of Giveup (trace s') = []" by simp
  qed
qed

lemma invoc_repr_poll_call: "invoc_repr poll_call = Inr ''poll(queue)''"
  by (simp add: invoc_repr_def poll_call_def format_s_def)

lemma log_body_poll_call: "log_body [Invoc poll_call, Tries t] = None"
  by (simp add: log_body_def invoc_repr_poll_call)

lemma invoc_repr_pair_call:
  "invoc_repr pair_call = Inl (TypeError ''not all arguments converted during string formatting'')"
  by (simp add: invoc_repr_def pair_call_def format_s_def)

lemma log_body_pair_call:
  "log_body [Invoc pair_call, Tries t] =
     Some (TypeError ''not all arguments converted during string formatting'')"
  by (simp add: log_body_def invoc_repr_pair_call)

lemmas cfg_defs = always_empty_def always_raises_def succeeds_at_once_def falsy_def boom_def
  on_predicate_def on_exception_def on_predicate_iter_def on_exception_iter_def
  retry_failed_def retry_succeeded_def start_def backoff_hdlrs_def giveup_hdlrs_def
  success_hdlrs_def handlers_def log_backoff_def log_giveup_def 
  expo_def expo_init_def exc_matches_def giveup_stat_def three_params_def TypeError_def
  returns_normally_def failing_handler_def handler_failed_def
  log_body_poll_call log_body_pair_call


section \<open>What a handler is called with\<close>

text \<open>
  Claim C1 says that backoff and giveup handlers are called with three arguments, the
  third being the triggering value or exception; the docstrings of \<open>on_predicate\<close> and
  \<open>on_exception\<close> document the same signatures. The loops call every handler as
  \<open>hdlr(invoc, tries)\<close>. In exception mode with \<open>max_tries = 1\<close>, a target that raises
  \<open>ValueError\<close> and the documented three-parameter handler \<open>giveup_stat\<close> as \<open>on_giveup\<close>:
  both give-up handlers are called with the two arguments \<open>(invoc, 1)\<close>, the call of
  \<open>giveup_stat\<close> raises \<open>TypeError\<close>, and that is what the wrapped call raises.
\<close>

theorem giveup_handler_called_with_two_arguments:
  "on_exception [''ValueError''] ((always_raises 1)\<lparr>on_giveup := HCallable giveup_stat\<rparr>) 1 =
     Some (Raised (TypeError ''wrong number of arguments''),
           \<lparr>tries = 1, wait = 0, calls = 1, jitters = 0,
            trace = [HandlerCall Giveup ''_log_giveup'' [Invoc poll_call, Tries 1],
                     HandlerCall Giveup ''giveup_stat'' [Invoc poll_call, Tries 1]]\<rparr>)"
  by (simp add: cfg_defs)


section \<open>The try counter\<close>

text \<open>
  Claim C2, as stated for every non-negative \<open>max_tries\<close>, fails at \<open>max_tries = 0\<close>: in
  both modes, after one failed attempt the loop is back at its head with \<open>tries = 1\<close>,
  which exceeds 0, and it has backed off instead of giving up.
\<close>

theorem tries_exceed_max_tries_zero:
  "max_tries (always_empty 0) = Some 0
   \<and> loop_state_at (on_predicate_iter falsy (always_empty 0)) (Suc 0) (start (always_empty 0)) =
       Some \<lparr>tries = 1, wait = 1, calls = 1, jitters = 1,
             trace = [HandlerCall Backoff ''_log_backoff'' [Invoc poll_call, Tries 1], Sleep 1]\<rparr>
   \<and> max_tries (always_raises 0) = Some 0
   \<and> loop_state_at (on_exception_iter [''ValueError''] (always_raises 0)) (Suc 0)
         (start (always_raises 0)) =
       Some \<lparr>tries = 1, wait = 1, calls = 1, jitters = 1,
             trace = [HandlerCall Backoff ''_log_backoff'' [Invoc poll_call, Tries 1], Sleep 1]\<rparr>"
  by (simp add: cfg_defs)

text \<open>
  Claim C2, amended to \<open>max_tries \<ge> 1\<close>. In both modes, with \<open>max_tries = m\<close> and
  \<open>1 \<le> m\<close>: every state in which the loop starts another attempt has \<open>tries < m\<close>; the
  state in which the wrapped call ends has \<open>tries \<le> m\<close>; and if it ends with \<open>tries = m\<close>
  then the give-up handlers were called with that count, the default \<open>_log_giveup\<close> among
  them. So the counter never exceeds \<open>max_tries\<close>, and when it reaches \<open>max_tries\<close> the
  call ends through the give-up branch and no further attempt is made.
\<close>

theorem tries_never_exceed_max_tries:
  assumes mode: "body = on_predicate_iter predicate opts \<or> body = on_exception_iter exception opts"
    and mt: "max_tries opts = Some m" and pos: "1 \<le> m"
  shows "(loop_state_at body k (start opts) = Some s \<longrightarrow> int (tries s) < m)
       \<and> (retry_loop body fuel (start opts) = Some (r, s') \<longrightarrow>
            int (tries s') \<le> m
            \<and> (int (tries s') = m \<longrightarrow>
                 (''_log_giveup'', [Invoc (invoc opts), Tries (tries s')]) \<in> set (calls_of Giveup (trace s'))))"
proof -
  have head: "int (tries t) < m" if "loop_state_at body j (start opts) = Some t" for j t
  proof (rule loop_state_at_invariant [where P = "\<lambda>j t. int (tries t) < m", OF _ _ that])
    show "int (tries (start opts)) < m" using pos by (simp add: start_def)
  next
    fix j t t'
    assume "int (tries t) < m" and "body t = Continue t'"
    with body_Continue [OF mode, of t t'] mt show "int (tries t') < m" by simp
  qed
  have final: "int (tries s') \<le> m
       \<and> (int (tries s') = m \<longrightarrow>
            (''_log_giveup'', [Invoc (invoc opts), Tries (tries s')]) \<in> set (calls_of Giveup (trace s')))"
    if "retry_loop body fuel (start opts) = Some (r, s')"
  proof -
    from retry_loop_final [OF that] obtain j t where
      jt: "loop_state_at body j (start opts) = Some t" "body t = Done r s'" by blast
    from body_Done [OF mode jt(2)] have
      "tries s' = tries t \<or> tries s' = Suc (tries t)
              \<and> (max_tries opts = Some (int (tries s')) \<longrightarrow>
                   (''_log_giveup'', [Invoc (invoc opts), Tries (tries s')]) \<in> set (calls_of Giveup (trace s')))"
      by simp
    with head [OF jt(1)] mt show ?thesis by (elim disjE conjE) auto
  qed
  show ?thesis
  proof (intro conjI impI)
    assume "loop_state_at body k (start opts) = Some s"
    then show "int (tries s) < m" by (rule head)
  next
    assume a: "retry_loop body fuel (start opts) = Some (r, s')"
    from final [OF a] show "int (tries s') \<le> m" by simp
    assume "int (tries s') = m"
    with final [OF a] show "(''_log_giveup'', [Invoc (invoc opts), Tries (tries s')]) \<in> set (calls_of Giveup (trace s'))"
      by simp
  qed
qed

theorem tries_never_exceed_max_tries_witness:
  "max_tries (always_empty 3) = Some 3 \<and> (1::int) \<le> 3
   \<and> loop_state_at (on_predicate_iter falsy (always_empty 3)) 2 (start (always_empty 3)) =
       Some \<lparr>tries = 2, wait = 2, calls = 2, jitters = 2,
             trace = [HandlerCall Backoff ''_log_backoff'' [Invoc poll_call, Tries 1], Sleep 1,
                      HandlerCall Backoff ''_log_backoff'' [Invoc poll_call, Tries 2], Sleep 2]\<rparr>
   \<and> int (tries \<lparr>tries = 2, wait = 2::nat, calls = 2, jitters = 2,
             trace = [HandlerCall Backoff ''_log_backoff'' [Invoc poll_call, Tries 1], Sleep 1,
                      HandlerCall Backoff ''_log_backoff'' [Invoc poll_call, Tries 2], Sleep (2::int)]\<rparr>) < 3
   \<and> retry_loop (on_predicate_iter falsy (always_empty 3)) 3 (start (always_empty 3)) =
       Some (Returned [],
             \<lparr>tries = 3, wait = 2, calls = 3, jitters = 2,
              trace = [HandlerCall Backoff ''_log_backoff'' [Invoc poll_call, Tries 1], Sleep 1,
                       HandlerCall Backoff ''_log_backoff'' [Invoc poll_call, Tries 2], Sleep 2,
                       HandlerCall Giveup ''_log_giveup'' [Invoc poll_call, Tries 3]]\<rparr>)
   \<and> (''_log_giveup'', [Invoc poll_call, Tries 3]) \<in> set (calls_of Giveup
          [HandlerCall Backoff ''_log_backoff'' [Invoc poll_call, Tries 1], Sleep (1::int),
           HandlerCall Backoff ''_log_backoff'' [Invoc poll_call, Tries 2], Sleep 2,
           HandlerCall Giveup ''_log_giveup'' [Invoc poll_call, Tries 3]])"
proof -
  let ?opts = "always_empty 3"
  let ?body = "on_predicate_iter falsy ?opts"
  let ?s2 = "\<lparr>tries = 2, wait = 2::nat, calls = 2, jitters = 2,
             trace = [HandlerCall Backoff ''_log_backoff'' [Invoc poll_call, Tries 1], Sleep 1,
                      HandlerCall Backoff ''_log_backoff'' [Invoc poll_call, Tries 2], Sleep (2::int)]\<rparr>"
  let ?s3 = "\<lparr>tries = 3, wait = 2::nat, calls = 3, jitters = 2,
              trace = [HandlerCall Backoff ''_log_backoff'' [Invoc poll_call, Tries 1], Sleep 1,
                       HandlerCall Backoff ''_log_backoff'' [Invoc poll_call, Tries 2], Sleep (2::int),
                       HandlerCall Giveup ''_log_giveup'' [Invoc poll_call, Tries 3]]\<rparr>"
  have mode: "?body = on_predicate_iter falsy ?opts \<or> ?body = on_exception_iter [] ?opts"
    by simp
  have mt: "max_tries ?opts = Some 3" by (simp add: always_empty_def)
  have pos: "(1::int) \<le> 3" by simp
  have at: "loop_state_at ?body 2 (start ?opts) = Some ?s2"
    by (simp add: cfg_defs eval_nat_numeral)
  have fin: "retry_loop ?body 3 (start ?opts) = Some (Returned [], ?s3)"
    by (simp add: cfg_defs eval_nat_numeral)
  from tries_never_exceed_max_tries [OF mode mt pos, of 2 ?s2 3 "Returned []" ?s3] at fin mt
  show ?thesis by simp
qed


section \<open>Exhausting the tries\<close>

text \<open>
  Claim C3, as stated for every configuration, fails when a backoff handler raises. With
  \<open>max_tries = 3\<close>, a target that raises a matching \<open>ValueError\<close> on every attempt and
  the default handlers only, the wrapped call \<open>poll((1, 2))\<close> ends after one invocation
  of the target: \<open>_log_backoff\<close> raises \<open>TypeError\<close> from \<open>_invoc_repr\<close>, no give-up
  handler is called and the caller sees the \<open>TypeError\<close>, not the \<open>ValueError\<close>. The same
  happens for \<open>poll(''queue'')\<close> with a backoff handler of the caller that raises.
\<close>

theorem on_exception_handler_raises:
  "max_tries (always_raises 3) = Some 3
   \<and> target (always_raises 3) 0 = Raised boom \<and> exc_matches [''ValueError''] boom
   \<and> on_exception [''ValueError''] ((always_raises 3)\<lparr>invoc := pair_call\<rparr>) 1 =
       Some (Raised (TypeError ''not all arguments converted during string formatting''),
             \<lparr>tries = 1, wait = 1, calls = 1, jitters = 1,
              trace = [HandlerCall Backoff ''_log_backoff'' [Invoc pair_call, Tries 1]]\<rparr>)
   \<and> on_exception [''ValueError''] ((always_raises 3)\<lparr>on_backoff := HCallable failing_handler\<rparr>) 1 =
       Some (Raised handler_failed,
             \<lparr>tries = 1, wait = 1, calls = 1, jitters = 1,
              trace = [HandlerCall Backoff ''_log_backoff'' [Invoc poll_call, Tries 1],
                       HandlerCall Backoff ''failing_handler'' [Invoc poll_call, Tries 1]]\<rparr>)"
  by (simp add: cfg_defs)

text \<open>
  Claim C3, amended with the condition that the handlers return normally. In exception
  mode with \<open>max_tries = n\<close>, \<open>n \<ge> 1\<close>, a target that raises a matching exception on
  each of its first \<open>n\<close> attempts, and backoff and give-up handlers that return normally
  when called with this invocation: the wrapped call ends after exactly \<open>n\<close> passes of
  the loop (with less fuel it is still running), the target has been invoked exactly
  \<open>n\<close> times, each give-up handler has been called exactly once, with \<open>tries = n\<close>, and
  the call raises the exception of the last attempt itself.
\<close>

theorem on_exception_exhausted:
  assumes "max_tries opts = Some (int n)" and "1 \<le> n"
    and "\<forall>i<n. \<exists>e. target opts i = Raised e \<and> exc_matches exception e"
    and "returns_normally (backoff_hdlrs opts) (invoc opts)"
    and "returns_normally (giveup_hdlrs opts) (invoc opts)"
  shows "\<exists>e s. target opts (n - 1) = Raised e
           \<and> (\<forall>fuel. on_exception exception opts fuel =
                  (if fuel < n then None else Some (Raised e, s)))
           \<and> calls s = n \<and> tries s = n
           \<and> calls_of Giveup (trace s) = map (\<lambda>h. (h_name h, [Invoc (invoc opts), Tries n])) (giveup_hdlrs opts)
           \<and> length (pauses (trace s)) = n - 1"
proof -
  have f: "\<forall>i<n. retries_at (on_exception_iter exception opts) opts i"
  proof (intro allI impI)
    fix i assume "i < n"
    with assms(3) obtain e where "target opts i = Raised e" "exc_matches exception e" by blast
    then show "retries_at (on_exception_iter exception opts) opts i"
      by (rule on_exception_retries)
  qed
  have "n - 1 < n" using assms(2) by simp
  with assms(3) obtain e where e: "target opts (n - 1) = Raised e"
    by blast
  from retry_loop_exhausted [OF assms(1,2,4,5) f] obtain s where
    "\<forall>fuel. retry_loop (on_exception_iter exception opts) fuel (start opts) =
                  (if fuel < n then None else Some (target opts (n - 1), s))"
    "calls s = n" "tries s = n"
    "calls_of Giveup (trace s) = map (\<lambda>h. (h_name h, [Invoc (invoc opts), Tries n])) (giveup_hdlrs opts)"
    "length (pauses (trace s)) = n - 1"
    by blast
  with e show ?thesis
    by (intro exI [of _ e] exI [of _ s]) (simp add: on_exception_def)
qed

theorem on_exception_exhausted_witness:
  "max_tries (always_raises 3) = Some (int 3)
   \<and> (\<exists>s. on_exception [''ValueError''] (always_raises 3) 3 = Some (Raised boom, s)
          \<and> on_exception [''ValueError''] (always_raises 3) 2 = None
          \<and> calls s = 3 \<and> tries s = 3
          \<and> calls_of Giveup (trace s) = [(''_log_giveup'', [Invoc poll_call, Tries 3])]
          \<and> length (pauses (trace s)) = 2)"
proof -
  have h1: "max_tries (always_raises 3) = Some (int 3)" by (simp add: always_raises_def)
  have h2: "(1::nat) \<le> 3" by simp
  have h3: "\<forall>i<3. \<exists>e. target (always_raises 3) i = Raised e \<and> exc_matches [''ValueError''] e"
    by (simp add: cfg_defs)
  have h4: "returns_normally (backoff_hdlrs (always_raises 3)) (invoc (always_raises 3))" by (simp add: cfg_defs)
  have h5: "returns_normally (giveup_hdlrs (always_raises 3)) (invoc (always_raises 3))" by (simp add: cfg_defs)
  from on_exception_exhausted [OF h1 h2 h3 h4 h5] obtain e s where
    es: "target (always_raises 3) (3 - 1) = Raised e"
        "\<forall>fuel. on_exception [''ValueError''] (always_raises 3) fuel =
                  (if fuel < 3 then None else Some (Raised e, s))"
        "calls s = 3" "tries s = 3"
        "calls_of Giveup (trace s) =
           map (\<lambda>h. (h_name h, [Invoc (invoc (always_raises 3)), Tries 3]))
             (giveup_hdlrs (always_raises 3))"
        "length (pauses (trace s)) = 3 - 1"
    by blast
  from es(1) have e: "e = boom" by (simp add: always_raises_def)
  from es(2) have "on_exception [''ValueError''] (always_raises 3) 3 = Some (Raised e, s)"
    and "on_exception [''ValueError''] (always_raises 3) 2 = None"
    by simp_all
  with e es(3-6) h1 show ?thesis
    by (intro conjI exI [of _ s])
       (simp_all add: always_raises_def giveup_hdlrs_def handlers_def log_giveup_def)
qed

text \<open>
  Claim C4, as stated for every configuration, fails when a backoff handler raises. With
  \<open>max_tries = 3\<close>, a target that returns the empty list on every attempt, the default
  predicate and the default handlers only, the wrapped call \<open>poll((1, 2))\<close> ends after one
  invocation of the target: \<open>_log_backoff\<close> raises \<open>TypeError\<close> from \<open>_invoc_repr\<close>, no
  give-up handler is called and the call raises instead of returning the last result.
  The same happens for \<open>poll(''queue'')\<close> with a backoff handler of the caller that
  raises.
\<close>

theorem on_predicate_handler_raises:
  "max_tries (always_empty 3) = Some 3
   \<and> target (always_empty 3) 0 = Returned [] \<and> falsy ([] :: int list)
   \<and> on_predicate falsy ((always_empty 3)\<lparr>invoc := pair_call\<rparr>) 1 =
       Some (Raised (TypeError ''not all arguments converted during string formatting''),
             \<lparr>tries = 1, wait = 1, calls = 1, jitters = 1,
              trace = [HandlerCall Backoff ''_log_backoff'' [Invoc pair_call, Tries 1]]\<rparr>)
   \<and> on_predicate falsy ((always_empty 3)\<lparr>on_backoff := HCallable failing_handler\<rparr>) 1 =
       Some (Raised handler_failed,
             \<lparr>tries = 1, wait = 1, calls = 1, jitters = 1,
              trace = [HandlerCall Backoff ''_log_backoff'' [Invoc poll_call, Tries 1],
                       HandlerCall Backoff ''failing_handler'' [Invoc poll_call, Tries 1]]\<rparr>)"
  by (simp add: cfg_defs)

text \<open>
  Claim C4, amended with the condition that the handlers return normally. In predicate
  mode with \<open>max_tries = n\<close>, \<open>n \<ge> 1\<close>, a target whose result satisfies the predicate on
  each of its first \<open>n\<close> attempts, and backoff and give-up handlers that return normally
  when called with this invocation: the wrapped call ends after exactly \<open>n\<close> passes of
  the loop, the target has been invoked exactly \<open>n\<close> times, each give-up handler has
  been called exactly once, with \<open>tries = n\<close>, and the call returns the result of the
  last attempt; nothing is raised.
\<close>

theorem on_predicate_exhausted:
  assumes "max_tries opts = Some (int n)" and "1 \<le> n"
    and "\<forall>i<n. \<exists>v. target opts i = Returned v \<and> predicate v"
    and "returns_normally (backoff_hdlrs opts) (invoc opts)"
    and "returns_normally (giveup_hdlrs opts) (invoc opts)"
  shows "\<exists>v s. target opts (n - 1) = Returned v \<and> predicate v
           \<and> (\<forall>fuel. on_predicate predicate opts fuel =
                  (if fuel < n then None else Some (Returned v, s)))
           \<and> calls s = n \<and> tries s = n
           \<and> calls_of Giveup (trace s) = map (\<lambda>h. (h_name h, [Invoc (invoc opts), Tries n])) (giveup_hdlrs opts)
           \<and> length (pauses (trace s)) = n - 1"
proof -
  have f: "\<forall>i<n. retries_at (on_predicate_iter predicate opts) opts i"
  proof (intro allI impI)
    fix i assume "i < n"
    with assms(3) obtain v where "target opts i = Returned v" "predicate v" by blast
    then show "retries_at (on_predicate_iter predicate opts) opts i"
      by (rule on_predicate_retries)
  qed
  have "n - 1 < n" using assms(2) by simp
  with assms(3) obtain v where v: "target opts (n - 1) = Returned v" "predicate v"
    by blast
  from retry_loop_exhausted [OF assms(1,2,4,5) f] obtain s where
    "\<forall>fuel. retry_loop (on_predicate_iter predicate opts) fuel (start opts) =
                  (if fuel < n then None else Some (target opts (n - 1), s))"
    "calls s = n" "tries s = n"
    "calls_of Giveup (trace s) = map (\<lambda>h. (h_name h, [Invoc (invoc opts), Tries n])) (giveup_hdlrs opts)"
    "length (pauses (trace s)) = n - 1"
    by blast
  with v show ?thesis
    by (intro exI [of _ v] exI [of _ s]) (simp add: on_predicate_def)
qed

theorem on_predicate_exhausted_witness:
  "max_tries (always_empty 3) = Some (int 3)
   \<and> (\<exists>s. on_predicate falsy (always_empty 3) 3 = Some (Returned [], s)
          \<and> on_predicate falsy (always_empty 3) 2 = None
          \<and> calls s = 3 \<and> tries s = 3
          \<and> calls_of Giveup (trace s) = [(''_log_giveup'', [Invoc poll_call, Tries 3])]
          \<and> length (pauses (trace s)) = 2)"
proof -
  have h1: "max_tries (always_empty 3) = Some (int 3)" by (simp add: always_empty_def)
  have h2: "(1::nat) \<le> 3" by simp
  have h3: "\<forall>i<3. \<exists>v. target (always_empty 3) i = Returned v \<and> falsy v"
    by (simp add: cfg_defs)
  have h4: "returns_normally (backoff_hdlrs (always_empty 3)) (invoc (always_empty 3))" by (simp add: cfg_defs)
  have h5: "returns_normally (giveup_hdlrs (always_empty 3)) (invoc (always_empty 3))" by (simp add: cfg_defs)
  from on_predicate_exhausted [OF h1 h2 h3 h4 h5] obtain v s where
    vs: "target (always_empty 3) (3 - 1) = Returned v"
        "\<forall>fuel. on_predicate falsy (always_empty 3) fuel =
                  (if fuel < 3 then None else Some (Returned v, s))"
        "calls s = 3" "tries s = 3"
        "calls_of Giveup (trace s) =
           map (\<lambda>h. (h_name h, [Invoc (invoc (always_empty 3)), Tries 3]))
             (giveup_hdlrs (always_empty 3))"
        "length (pauses (trace s)) = 3 - 1"
    by blast
  from vs(1) have v: "v = []" by (simp add: always_empty_def)
  from vs(2) have "on_predicate falsy (always_empty 3) 3 = Some (Returned v, s)"
    and "on_predicate falsy (always_empty 3) 2 = None"
    by simp_all
  with v vs(3-6) h1 show ?thesis
    by (intro conjI exI [of _ s])
       (simp_all add: always_empty_def giveup_hdlrs_def handlers_def log_giveup_def)
qed


section \<open>max_tries = 0\<close>

text \<open>
  Claim C5, as stated, fails in its second half when a backoff handler raises. With
  \<open>max_tries = 0\<close>, a target that calls for a retry on every attempt and the default
  handlers only, the wrapped call \<open>poll((1, 2))\<close> does not go on without bound: it ends
  at the first backoff, where \<open>_log_backoff\<close> raises \<open>TypeError\<close> from \<open>_invoc_repr\<close>.
  The same happens for \<open>poll(''queue'')\<close> with a backoff handler of the caller that
  raises.
\<close>

theorem max_tries_zero_handler_raises:
  "max_tries (always_empty 0) = Some 0
   \<and> target (always_empty 0) 0 = Returned [] \<and> falsy ([] :: int list)
   \<and> on_predicate falsy ((always_empty 0)\<lparr>invoc := pair_call\<rparr>) 1 =
       Some (Raised (TypeError ''not all arguments converted during string formatting''),
             \<lparr>tries = 1, wait = 1, calls = 1, jitters = 1,
              trace = [HandlerCall Backoff ''_log_backoff'' [Invoc pair_call, Tries 1]]\<rparr>)
   \<and> max_tries (always_raises 0) = Some 0
   \<and> target (always_raises 0) 0 = Raised boom \<and> exc_matches [''ValueError''] boom
   \<and> on_exception [''ValueError''] ((always_raises 0)\<lparr>on_backoff := HCallable failing_handler\<rparr>) 1 =
       Some (Raised handler_failed,
             \<lparr>tries = 1, wait = 1, calls = 1, jitters = 1,
              trace = [HandlerCall Backoff ''_log_backoff'' [Invoc poll_call, Tries 1],
                       HandlerCall Backoff ''failing_handler'' [Invoc poll_call, Tries 1]]\<rparr>)"
  by (simp add: cfg_defs)

text \<open>
  Claim C5, amended. With \<open>max_tries = 0\<close>, in both modes and whatever the target and
  the handlers do, the give-up branch is never taken: no give-up handler call is in the
  trace of any state at the head of the loop, nor in the trace with which the wrapped
  call ends, if it ends. If moreover the target calls for a retry on every attempt (a
  result satisfying the predicate in predicate mode, a matching exception in exception
  mode) and the backoff handlers return normally when called with this invocation, the
  wrapped call never ends, whatever the fuel: for every \<open>k\<close> the loop reaches its head
  after \<open>k\<close> attempts, \<open>k\<close> increments of \<open>tries\<close> and \<open>k\<close> pauses.
\<close>

theorem max_tries_zero_never_gives_up:
  assumes mt: "max_tries opts = Some 0"
  shows "(loop_state_at (on_predicate_iter predicate opts) k (start opts) = Some s \<longrightarrow>
            calls_of Giveup (trace s) = [])
       \<and> (on_predicate predicate opts fuel = Some (r, s') \<longrightarrow> calls_of Giveup (trace s') = [])
       \<and> (loop_state_at (on_exception_iter exception opts) k (start opts) = Some s \<longrightarrow>
            calls_of Giveup (trace s) = [])
       \<and> (on_exception exception opts fuel = Some (r, s') \<longrightarrow> calls_of Giveup (trace s') = [])
       \<and> (returns_normally (backoff_hdlrs opts) (invoc opts)
            \<and> (\<forall>i. \<exists>v. target opts i = Returned v \<and> predicate v) \<longrightarrow>
            on_predicate predicate opts fuel = None
            \<and> (\<exists>t. loop_state_at (on_predicate_iter predicate opts) k (start opts) = Some t
                   \<and> calls t = k \<and> tries t = k \<and> length (pauses (trace t)) = k
                   \<and> calls_of Giveup (trace t) = []))
       \<and> (returns_normally (backoff_hdlrs opts) (invoc opts)
            \<and> (\<forall>i. \<exists>e. target opts i = Raised e \<and> exc_matches exception e) \<longrightarrow>
            on_exception exception opts fuel = None
            \<and> (\<exists>t. loop_state_at (on_exception_iter exception opts) k (start opts) = Some t
                   \<and> calls t = k \<and> tries t = k \<and> length (pauses (trace t)) = k
                   \<and> calls_of Giveup (trace t) = []))"
proof -
  have pm: "on_predicate_iter predicate opts = on_predicate_iter predicate opts
      \<or> on_predicate_iter predicate opts = on_exception_iter exception opts" by simp
  have em: "on_exception_iter exception opts = on_predicate_iter predicate opts
      \<or> on_exception_iter exception opts = on_exception_iter exception opts" by simp
  note p = giveup_never_called [OF pm mt, of k s fuel r s']
  note e = giveup_never_called [OF em mt, of k s fuel r s']
  have run_p: "on_predicate predicate opts fuel = None
            \<and> (\<exists>t. loop_state_at (on_predicate_iter predicate opts) k (start opts) = Some t
                   \<and> calls t = k \<and> tries t = k \<and> length (pauses (trace t)) = k
                   \<and> calls_of Giveup (trace t) = [])"
    if rb: "returns_normally (backoff_hdlrs opts) (invoc opts)"
      and a: "\<forall>i. \<exists>v. target opts i = Returned v \<and> predicate v"
  proof -
    have f: "\<forall>i. retries_at (on_predicate_iter predicate opts) opts i"
    proof
      fix i
      from a obtain v where "target opts i = Returned v" "predicate v" by blast
      then show "retries_at (on_predicate_iter predicate opts) opts i"
        by (rule on_predicate_retries)
    qed
    show ?thesis unfolding on_predicate_def by (rule never_gives_up [OF mt rb f])
  qed
  have run_e: "on_exception exception opts fuel = None
            \<and> (\<exists>t. loop_state_at (on_exception_iter exception opts) k (start opts) = Some t
                   \<and> calls t = k \<and> tries t = k \<and> length (pauses (trace t)) = k
                   \<and> calls_of Giveup (trace t) = [])"
    if rb: "returns_normally (backoff_hdlrs opts) (invoc opts)"
      and a: "\<forall>i. \<exists>e. target opts i = Raised e \<and> exc_matches exception e"
  proof -
    have f: "\<forall>i. retries_at (on_exception_iter exception opts) opts i"
    proof
      fix i
      from a obtain e where "target opts i = Raised e" "exc_matches exception e" by blast
      then show "retries_at (on_exception_iter exception opts) opts i"
        by (rule on_exception_retries)
    qed
    show ?thesis unfolding on_exception_def by (rule never_gives_up [OF mt rb f])
  qed
  from p e show ?thesis
    unfolding on_predicate_def [symmetric] on_exception_def [symmetric]
    using run_p run_e by (intro conjI impI) simp_all
qed

theorem max_tries_zero_never_gives_up_witness:
  "max_tries (always_empty 0) = Some 0 \<and> max_tries (always_raises 0) = Some 0
   \<and> on_predicate falsy ((always_empty 0)\<lparr>invoc := pair_call\<rparr>) 1 =
       Some (Raised (TypeError ''not all arguments converted during string formatting''),
             \<lparr>tries = 1, wait = 1, calls = 1, jitters = 1,
              trace = [HandlerCall Backoff ''_log_backoff'' [Invoc pair_call, Tries 1]]\<rparr>)
   \<and> calls_of Giveup [HandlerCall Backoff ''_log_backoff'' [Invoc pair_call, Tries 1] :: int event] = []
   \<and> on_predicate falsy (always_empty 0) 5 = None
   \<and> (\<exists>t. loop_state_at (on_predicate_iter falsy (always_empty 0)) 2 (start (always_empty 0)) = Some t
          \<and> calls t = 2 \<and> tries t = 2 \<and> length (pauses (trace t)) = 2
          \<and> calls_of Giveup (trace t) = [])
   \<and> on_exception [''ValueError''] (always_raises 0) 5 = None
   \<and> (\<exists>t. loop_state_at (on_exception_iter [''ValueError''] (always_raises 0)) 2
             (start (always_raises 0)) = Some t
          \<and> calls t = 2 \<and> tries t = 2 \<and> length (pauses (trace t)) = 2
          \<and> calls_of Giveup (trace t) = [])"
proof -
  let ?s1 = "\<lparr>tries = 1, wait = 1::nat, calls = 1, jitters = 1,
              trace = [HandlerCall Backoff ''_log_backoff'' [Invoc pair_call, Tries 1] :: int event]\<rparr>"
  let ?te = "TypeError ''not all arguments converted during string formatting''"
  have q1: "max_tries ((always_empty 0)\<lparr>invoc := pair_call\<rparr>) = Some 0"
    by (simp add: always_empty_def)
  have q2: "on_predicate falsy ((always_empty 0)\<lparr>invoc := pair_call\<rparr>) 1 = Some (Raised ?te, ?s1)"
    by (simp add: cfg_defs)
  have p1: "max_tries (always_empty 0) = Some 0" by (simp add: always_empty_def)
  have p2: "returns_normally (backoff_hdlrs (always_empty 0)) (invoc (always_empty 0))"
    by (simp add: cfg_defs)
  have p3: "\<forall>i. \<exists>v. target (always_empty 0) i = Returned v \<and> falsy v" by (simp add: cfg_defs)
  have e1: "max_tries (always_raises 0) = Some 0" by (simp add: always_raises_def)
  have e2: "returns_normally (backoff_hdlrs (always_raises 0)) (invoc (always_raises 0))"
    by (simp add: cfg_defs)
  have e3: "\<forall>i. \<exists>e. target (always_raises 0) i = Raised e \<and> exc_matches [''ValueError''] e"
    by (simp add: cfg_defs)
  from max_tries_zero_never_gives_up [OF q1, of falsy 0 "start ((always_empty 0)\<lparr>invoc := pair_call\<rparr>)"
      1 "Raised ?te" ?s1 "[]"] q2
  have a: "calls_of Giveup (trace ?s1) = []" by blast
  from max_tries_zero_never_gives_up [OF p1, of falsy 2 "start (always_empty 0)" 5 "Raised ?te" ?s1 "[]"]
    p2 p3
  have b: "on_predicate falsy (always_empty 0) 5 = None
     \<and> (\<exists>t. loop_state_at (on_predicate_iter falsy (always_empty 0)) 2 (start (always_empty 0)) = Some t
          \<and> calls t = 2 \<and> tries t = 2 \<and> length (pauses (trace t)) = 2
          \<and> calls_of Giveup (trace t) = [])"
    by blast
  from max_tries_zero_never_gives_up [OF e1, of falsy 2 "start (always_raises 0)" 5 "Raised ?te" ?s1
      "[''ValueError'']"] e2 e3
  have c: "on_exception [''ValueError''] (always_raises 0) 5 = None
     \<and> (\<exists>t. loop_state_at (on_exception_iter [''ValueError''] (always_raises 0)) 2
             (start (always_raises 0)) = Some t
          \<and> calls t = 2 \<and> tries t = 2 \<and> length (pauses (trace t)) = 2
          \<and> calls_of Giveup (trace t) = [])"
    by blast
  from a b c p1 e1 q2 show ?thesis by simp
qed


section \<open>Exceptions that do not match\<close>

text \<open>
  Claim C6. In exception mode an exception of the target that does not match
  \<open>exception\<close> ends the wrapped call in the pass in which it is raised: no handler is
  called, nothing is waited for, and the exception itself is raised to the caller. When
  it is raised by the first attempt, the target has been invoked exactly once and the
  trace of handler calls and pauses is empty.
\<close>

theorem unmatched_exception_propagates:
  assumes "\<not> exc_matches exception e"
  shows "(target opts (calls s) = Raised e \<longrightarrow>
            on_exception_iter exception opts s = Done (Raised e) (s\<lparr>calls := Suc (calls s)\<rparr>))
       \<and> (target opts 0 = Raised e \<longrightarrow>
            on_exception exception opts (Suc fuel) =
              Some (Raised e, \<lparr>tries = 0, wait = wait_gen_kwargs opts, calls = 1, jitters = 0,
                               trace = []\<rparr>))"
  using assms by (simp add: on_exception_def on_exception_iter_def start_def)

theorem unmatched_exception_propagates_witness:
  "\<not> exc_matches [''KeyError''] boom
   \<and> target (always_raises 3) 0 = Raised boom
   \<and> on_exception [''KeyError''] (always_raises 3) 1 =
       Some (Raised boom, \<lparr>tries = 0, wait = 0, calls = 1, jitters = 0, trace = []\<rparr>)"
proof -
  have h: "\<not> exc_matches [''KeyError''] boom" by (simp add: exc_matches_def boom_def)
  have t: "target (always_raises 3) 0 = Raised boom" by (simp add: always_raises_def)
  from unmatched_exception_propagates [OF h, of "always_raises 3" "start (always_raises 3)" 0] h t
  show ?thesis by (simp add: always_raises_def expo_init_def)
qed


section \<open>The pauses\<close>

text \<open>
  Claim C8. In both modes, when the loop is at its head after \<open>k\<close> retries, the pauses
  made so far are, in order, \<open>next(wait) + jitter()\<close> for the calls number \<open>0, \<dots>, k - 1\<close>
  of the wait generator and of \<open>jitter\<close>: one pause per retry, the first included, each
  the sum of the value read from the generator and of the jitter. The same holds of
  the pauses made when the wrapped call ends. With a \<open>jitter\<close> that always returns 0,
  pause number \<open>i\<close> is exactly value number \<open>i\<close> of the wait generator.
\<close>

theorem pause_is_wait_plus_jitter:
  fixes opts :: "('v, 'g, 'n::monoid_add) options"
  assumes mode: "body = on_predicate_iter predicate opts \<or> body = on_exception_iter exception opts"
  shows "(loop_state_at body k (start opts) = Some s \<longrightarrow>
            pauses (trace s) =
              map (\<lambda>i. gen_nth (wait_gen opts) (wait_gen_kwargs opts) i + jitter opts i) [0..<k]
            \<and> (jitter opts = (\<lambda>j. 0) \<longrightarrow>
                 pauses (trace s) = map (gen_nth (wait_gen opts) (wait_gen_kwargs opts)) [0..<k]))
       \<and> (retry_loop body fuel (start opts) = Some (r, s') \<longrightarrow>
            pauses (trace s') =
              map (\<lambda>i. gen_nth (wait_gen opts) (wait_gen_kwargs opts) i + jitter opts i)
                [0..<length (pauses (trace s'))]
            \<and> (jitter opts = (\<lambda>j. 0) \<longrightarrow>
                 pauses (trace s') =
                   map (gen_nth (wait_gen opts) (wait_gen_kwargs opts))
                     [0..<length (pauses (trace s'))]))"
proof (intro conjI impI)
  assume at: "loop_state_at body k (start opts) = Some s"
  from pauses_at_head [OF mode at]
  show p: "pauses (trace s) =
      map (\<lambda>i. gen_nth (wait_gen opts) (wait_gen_kwargs opts) i + jitter opts i) [0..<k]"
    by simp
  assume "jitter opts = (\<lambda>j. 0)"
  with p show "pauses (trace s) = map (gen_nth (wait_gen opts) (wait_gen_kwargs opts)) [0..<k]"
    by simp
next
  assume fin: "retry_loop body fuel (start opts) = Some (r, s')"
  from retry_loop_final [OF fin] obtain j t where
    jt: "loop_state_at body j (start opts) = Some t" "body t = Done r s'" by blast
  from pauses_at_head [OF mode jt(1)] body_Done [OF mode jt(2)]
  have "pauses (trace s') =
      map (\<lambda>i. gen_nth (wait_gen opts) (wait_gen_kwargs opts) i + jitter opts i) [0..<j]"
    by simp
  then have "length (pauses (trace s')) = j" by simp
  with \<open>pauses (trace s') = _\<close>
  show p: "pauses (trace s') =
      map (\<lambda>i. gen_nth (wait_gen opts) (wait_gen_kwargs opts) i + jitter opts i)
        [0..<length (pauses (trace s'))]"
    by simp
  assume "jitter opts = (\<lambda>j. 0)"
  with p show "pauses (trace s') =
      map (gen_nth (wait_gen opts) (wait_gen_kwargs opts)) [0..<length (pauses (trace s'))]"
    by simp
qed

theorem pause_is_wait_plus_jitter_witness:
  "jitter (always_empty 3) = (\<lambda>j. 0)
   \<and> retry_loop (on_predicate_iter falsy (always_empty 3)) 3 (start (always_empty 3)) =
       Some (Returned [],
             \<lparr>tries = 3, wait = 2, calls = 3, jitters = 2,
              trace = [HandlerCall Backoff ''_log_backoff'' [Invoc poll_call, Tries 1], Sleep 1,
                       HandlerCall Backoff ''_log_backoff'' [Invoc poll_call, Tries 2], Sleep 2,
                       HandlerCall Giveup ''_log_giveup'' [Invoc poll_call, Tries 3]]\<rparr>)
   \<and> map (gen_nth (wait_gen (always_empty 3)) (wait_gen_kwargs (always_empty 3))) [0..<2] = [1, 2]"
proof -
  let ?opts = "always_empty 3"
  let ?body = "on_predicate_iter falsy ?opts"
  let ?s3 = "\<lparr>tries = 3, wait = 2::nat, calls = 3, jitters = 2,
              trace = [HandlerCall Backoff ''_log_backoff'' [Invoc poll_call, Tries 1], Sleep 1,
                       HandlerCall Backoff ''_log_backoff'' [Invoc poll_call, Tries 2], Sleep (2::int),
                       HandlerCall Giveup ''_log_giveup'' [Invoc poll_call, Tries 3]]\<rparr>"
  have mode: "?body = on_predicate_iter falsy ?opts \<or> ?body = on_exception_iter [] ?opts"
    by simp
  have j: "jitter ?opts = (\<lambda>j. 0)" by (simp add: always_empty_def)
  have fin: "retry_loop ?body 3 (start ?opts) = Some (Returned [], ?s3)"
    by (simp add: cfg_defs eval_nat_numeral)
  have len: "length (pauses (trace ?s3)) = 2" by simp
  from pause_is_wait_plus_jitter [OF mode, of 0 "start ?opts" 3 "Returned []" ?s3] fin j
  have "pauses (trace ?s3) =
      map (gen_nth (wait_gen ?opts) (wait_gen_kwargs ?opts)) [0..<length (pauses (trace ?s3))]"
    by simp
  then have "map (gen_nth (wait_gen ?opts) (wait_gen_kwargs ?opts)) [0..<2] = [1, 2]"
    unfolding len by simp
  with j fin show ?thesis by simp
qed


section \<open>Success on the first attempt\<close>



end
